theory Spec2Isabelle
  imports Main "HOL-Library.Multiset"
begin

section \<open>Exceptions\<close>

text \<open>
  The Python exceptions that the modelled functions can raise. A function that may
  raise returns \<open>exn + 'a\<close>, with \<open>Inl\<close> for the exception.
\<close>

datatype exn =
    ValueError string
  | TypeError
  | KeyError
  | AttributeError
  | UnboundLocalError

section \<open>Result Aggregator: \<open>process_output_transects\<close> (stages/utils/file_utils.py)\<close>

text \<open>
  An echodata dictionary is read at the keys \<open>transect\<close> and \<open>error\<close> only; every other
  key lives in the extension part of the record. \<open>Output\<close> is the object whose \<open>data\<close>
  attribute receives the list of one transect.
\<close>

record 't ed =
  transect :: 't
  error :: bool

datatype 'r Output = Output (data: "'r list")

text \<open>
  A Python \<open>dict\<close> keeps its keys in insertion order, so \<open>transect_dict\<close> is an association
  list with distinct keys: \<open>d[k] = v\<close> overwrites in place or appends a new entry at the end,
  \<open>d[k]\<close> raises \<open>KeyError\<close> on an absent key.
\<close>

type_synonym ('k, 'v) dict = "('k \<times> 'v) list"

fun setitem :: "('k, 'v) dict \<Rightarrow> 'k \<Rightarrow> 'v \<Rightarrow> ('k, 'v) dict" where
  "setitem [] k v = [(k, v)]"
| "setitem ((k', v') # d) k v = (if k' = k then (k, v) # d else (k', v') # setitem d k v)"

definition getitem :: "('k, 'v) dict \<Rightarrow> 'k \<Rightarrow> exn + 'v" where
  "getitem d k = (case map_of d k of None \<Rightarrow> Inl KeyError | Some v \<Rightarrow> Inr v)"

definition keys :: "('k, 'v) dict \<Rightarrow> 'k list" where
  "keys d = map fst d"

definition partial_failure_message :: "string \<Rightarrow> string" where
  "partial_failure_message name =
     ''Could not complete '' @ name @ '' successfully since 1 or more raw files''
     @ ''failed to convert. Try fixing or skipping the files from the process.''
     @ ''If `use_offline` flag is set to true, processed files will be skipped the next run.''"

text \<open>The first loop: raise at the first flagged record, otherwise file it under its transect.\<close>

fun group_transects ::
  "string \<Rightarrow> ('t, ('t, 'm) ed_scheme list) dict \<Rightarrow> ('t, 'm) ed_scheme list
     \<Rightarrow> exn + ('t, ('t, 'm) ed_scheme list) dict" where
  "group_transects name transect_dict [] = Inr transect_dict"
| "group_transects name transect_dict (e # ed_list) =
     (if error e = True then Inl (ValueError (partial_failure_message name))
      else (case map_of transect_dict (transect e) of
              Some members \<Rightarrow>
                group_transects name (setitem transect_dict (transect e) (members @ [e])) ed_list
            | None \<Rightarrow>
                group_transects name (setitem transect_dict (transect e) [e]) ed_list))"

text \<open>The second loop: one \<open>Output\<close> per key of the dictionary, in key order.\<close>

fun collect_outputs ::
  "('t, 'r list) dict \<Rightarrow> 't list \<Rightarrow> 'r Output list \<Rightarrow> exn + 'r Output list" where
  "collect_outputs transect_dict [] outputs = Inr outputs"
| "collect_outputs transect_dict (t # ts) outputs =
     (case getitem transect_dict t of
        Inl e \<Rightarrow> Inl e
      | Inr members \<Rightarrow> collect_outputs transect_dict ts (outputs @ [Output members]))"

definition process_output_transects ::
  "string \<Rightarrow> ('t, 'm) ed_scheme list \<Rightarrow> exn + ('t, 'm) ed_scheme Output list" where
  "process_output_transects name ed_list =
     (case group_transects name [] ed_list of
        Inl e \<Rightarrow> Inl e
      | Inr transect_dict \<Rightarrow> collect_outputs transect_dict (keys transect_dict) [])"

text \<open>
  The grouping the specification describes: the distinct transect identifiers in order of
  first appearance, and for each of them the records carrying it, in input order.
\<close>

fun first_seen :: "'a list \<Rightarrow> 'a list" where
  "first_seen [] = []"
| "first_seen (x # xs) = x # filter (\<lambda>y. y \<noteq> x) (first_seen xs)"

definition transect_groups :: "('t, 'm) ed_scheme list \<Rightarrow> ('t, ('t, 'm) ed_scheme list) dict" where
  "transect_groups ed_list =
     map (\<lambda>t. (t, filter (\<lambda>e. transect e = t) ed_list)) (first_seen (map transect ed_list))"

section \<open>Weekly Chunker: \<open>parse_raw_json\<close> (convert/tasks.py)\<close>

text \<open>
  The function is modelled from the point where \<open>json.load\<close> has returned \<open>raw_dicts\<close>.
  A raw url dictionary is read at the key \<open>jday\<close> only, through \<open>r.get('jday')\<close>, which
  is \<open>None\<close> when the key is absent (or holds \<open>null\<close>); every other key lives in the
  extension part of the record.
\<close>

record raw_dict =
  jday :: "int option"

text \<open>
  \<open>sorted({...})\<close>: the distinct values in ascending order. Python refuses to compare
  \<open>None\<close> with an integer, so a set that holds \<open>None\<close> beside anything else raises
  \<open>TypeError\<close>, while the one-element set \<open>{None}\<close> is sorted without any comparison.
\<close>

definition sorted_set :: "int option list \<Rightarrow> exn + int option list" where
  "sorted_set vs =
     (case those vs of
        Some ns \<Rightarrow> Inr (map Some (sorted_list_of_set (set ns)))
      | None \<Rightarrow> if set vs = {None} then Inr [None] else Inl TypeError)"

text \<open>
  \<open>[xs[i : i + n] for i in range(i0, len(xs), n)]\<close>. The source calls it with \<open>n = 7\<close> and
  \<open>i0 = 0\<close>; a step of \<open>0\<close>, which \<open>range\<close> rejects, yields no slice here.
\<close>

function slices :: "nat \<Rightarrow> nat \<Rightarrow> 'a list \<Rightarrow> 'a list list" where
  "slices n i xs =
     (if n = 0 \<or> length xs \<le> i then [] else take n (drop i xs) # slices n (i + n) xs)"
  by pat_completeness auto
termination
  by (relation "measure (\<lambda>(n, i, xs). length xs - i)") auto

declare slices.simps [simp del]

text \<open>The loop that files every record under its \<open>jday\<close> in \<open>day_dict\<close>.\<close>

fun fill_day_dict ::
  "(int option, 'm raw_dict_scheme list) dict \<Rightarrow> 'm raw_dict_scheme list
     \<Rightarrow> exn + (int option, 'm raw_dict_scheme list) dict" where
  "fill_day_dict day_dict [] = Inr day_dict"
| "fill_day_dict day_dict (r # raw_dicts) =
     (let mint = jday r;
          day_dict1 = (if map_of day_dict mint = None then setitem day_dict mint [] else day_dict)
      in case getitem day_dict1 mint of
           Inl e \<Rightarrow> Inl e
         | Inr files \<Rightarrow> fill_day_dict (setitem day_dict1 mint (files @ [r])) raw_dicts)"

text \<open>\<open>list(it.chain.from_iterable([day_dict[d] for d in week]))\<close>\<close>

fun week_files :: "(int option, 'r list) dict \<Rightarrow> int option list \<Rightarrow> exn + 'r list" where
  "week_files day_dict [] = Inr []"
| "week_files day_dict (d # week) =
     (case getitem day_dict d of
        Inl e \<Rightarrow> Inl e
      | Inr files \<Rightarrow>
          (case week_files day_dict week of
             Inl e \<Rightarrow> Inl e
           | Inr rest \<Rightarrow> Inr (files @ rest)))"

fun collect_weeks ::
  "(int option, 'r list) dict \<Rightarrow> int option list list \<Rightarrow> 'r list list \<Rightarrow> exn + 'r list list" where
  "collect_weeks day_dict [] all_weeks = Inr all_weeks"
| "collect_weeks day_dict (week # split_days) all_weeks =
     (case week_files day_dict week of
        Inl e \<Rightarrow> Inl e
      | Inr files \<Rightarrow> collect_weeks day_dict split_days (all_weeks @ [files]))"

definition parse_raw_json :: "'m raw_dict_scheme list \<Rightarrow> exn + 'm raw_dict_scheme list list" where
  "parse_raw_json raw_dicts =
     (let n = 7 in
      case sorted_set (map jday raw_dicts) of
        Inl e \<Rightarrow> Inl e
      | Inr all_jdays \<Rightarrow>
          (let split_days = slices n 0 all_jdays in
           case fill_day_dict [] raw_dicts of
             Inl e \<Rightarrow> Inl e
           | Inr day_dict \<Rightarrow> collect_weeks day_dict split_days []))"

text \<open>
  The distinct day values of a collection, in ascending order, as the specification
  describes the first step of the chunker.
\<close>

definition distinct_days :: "'m raw_dict_scheme list \<Rightarrow> int list" where
  "distinct_days raw_dicts = sorted_list_of_set {d. \<exists>r \<in> set raw_dicts. jday r = Some d}"

section \<open>Temporal Classifier: \<open>parse_file_path\<close> (subflows/fetch/utils.py)\<close>

text \<open>
  The values a raw file dictionary holds: \<open>None\<close>, a string (a captured group, the ISO
  timestamp) or an integer (month, year, day of the year).
\<close>

datatype pyval = PNone | PStr string | PInt int

text \<open>
  What the function reads of the object \<open>dateutil.parser.parse\<close> returns:
  \<open>isoformat()\<close>, \<open>timetuple().tm_yday\<close>, \<open>month\<close> and \<open>year\<close>.
\<close>

record datetime_obj =
  isoformat :: string
  tm_yday :: int
  month :: int
  year :: int

text \<open>
  The two library calls are parameters. \<open>re_search fname_pattern raw_file\<close> stands for
  \<open>re.compile(fname_pattern).search(raw_file)\<close>: it raises (an invalid pattern), returns
  \<open>None\<close> (no match) or returns a match object, given by its \<open>groupdict()\<close>, in which a
  named group that did not take part in the match is \<open>None\<close>. \<open>parser_parse\<close> stands for
  \<open>dateutil.parser.parse\<close>, which raises on a string it cannot read.
\<close>

type_synonym regex_lib = "string \<Rightarrow> string \<Rightarrow> exn + (string, string option) dict option"
type_synonym dateutil_lib = "string \<Rightarrow> exn + datetime_obj"

definition contains :: "('k, 'v) dict \<Rightarrow> 'k \<Rightarrow> bool" where
  "contains d k = (map_of d k \<noteq> None)"

definition pop :: "('k, 'v) dict \<Rightarrow> 'k \<Rightarrow> exn + ('k, 'v) dict" where
  "pop d k = (if contains d k then Inr (filter (\<lambda>(k', v). k' \<noteq> k) d) else Inl KeyError)"

definition setdefault :: "('k, 'v) dict \<Rightarrow> 'k \<Rightarrow> 'v \<Rightarrow> ('k, 'v) dict" where
  "setdefault d k v = (if contains d k then d else d @ [(k, v)])"

definition group_value :: "string option \<Rightarrow> pyval" where
  "group_value g = (case g of None \<Rightarrow> PNone | Some s \<Rightarrow> PStr s)"

text \<open>\<open>f"{x}"\<close> for a group taken from the match: \<open>None\<close> is printed as \<open>None\<close>.\<close>

definition format_group :: "string option \<Rightarrow> string" where
  "format_group g = (case g of None \<Rightarrow> ''None'' | Some s \<Rightarrow> s)"

text \<open>\<open>file_match[name]\<close>: the group of that name, \<open>IndexError\<close> (here \<open>KeyError\<close>) without it.\<close>

definition match_group :: "(string, string option) dict \<Rightarrow> string \<Rightarrow> exn + string option" where
  "match_group file_match k = getitem file_match k"

definition parse_file_path ::
  "regex_lib \<Rightarrow> dateutil_lib \<Rightarrow> string \<Rightarrow> string \<Rightarrow> exn + (string, pyval) dict" where
  "parse_file_path re_search parser_parse raw_file fname_pattern =
     (case re_search fname_pattern raw_file of
        Inl e \<Rightarrow> Inl e
      | Inr None \<Rightarrow> Inl AttributeError
      | Inr (Some file_match) \<Rightarrow>
          (let match_dict = map (\<lambda>(k, g). (k, group_value g)) file_match;
               file_datetime = PNone
           in if contains match_dict ''date'' \<and> contains match_dict ''time'' then
                (case match_group file_match ''date'' of
                   Inl e \<Rightarrow> Inl e
                 | Inr date \<Rightarrow>
                (case match_group file_match ''time'' of
                   Inl e \<Rightarrow> Inl e
                 | Inr time \<Rightarrow>
                (case parser_parse (format_group date @ format_group time) of
                   Inl e \<Rightarrow> Inl e
                 | Inr datetime_obj \<Rightarrow>
                     (let file_datetime = PStr (isoformat datetime_obj);
                          jday = tm_yday datetime_obj
                      in case pop match_dict ''date'' of
                           Inl e \<Rightarrow> Inl e
                         | Inr match_dict1 \<Rightarrow>
                        (case pop match_dict1 ''time'' of
                           Inl e \<Rightarrow> Inl e
                         | Inr match_dict2 \<Rightarrow>
                             (let match_dict3 = setdefault match_dict2 ''month'' (PInt (month datetime_obj));
                                  match_dict4 = setdefault match_dict3 ''year'' (PInt (year datetime_obj));
                                  match_dict5 = setdefault match_dict4 ''jday'' (PInt jday)
                              in Inr (setdefault match_dict5 ''datetime'' file_datetime)))))))
              else Inr (setdefault match_dict ''datetime'' file_datetime)))"

section \<open>Orchestration: \<open>init_flow\<close> (stages_v2/subflows/initialization_flow.py)\<close>

subsection \<open>Recipe, stage configuration and the distributed client\<close>

text \<open>
  The configuration classes are read at the attributes below; \<open>options\<close> stands for
  whatever else a stage carries.
\<close>

record 'o Stage =
  name :: string
  module :: string
  options :: 'o

record 'o Process =
  stages :: "'o Stage list"

record 'o Recipe =
  pipeline :: "'o Process list"
  scheduler_address :: "string option"
  use_local_dask :: bool

text \<open>
  \<open>prefect_config_dict\<close> maps option names to values; the flow reads and writes the key
  \<open>task_runner\<close> only. \<open>d.get(k)\<close> is \<open>None\<close> for an absent key.
\<close>

datatype cfg_val = CNone | DaskTaskRunner string | Setting string

type_synonym config = "(string, cfg_val) dict"

definition dict_get :: "config \<Rightarrow> string \<Rightarrow> cfg_val" where
  "dict_get d k = (case map_of d k of None \<Rightarrow> CNone | Some v \<Rightarrow> v)"

text \<open>A client is known by \<open>client.scheduler.address\<close>.\<close>

datatype Client = Client (address: string)

text \<open>
  What a run does to the outside world, in order: \<open>LocalCluster(n_workers=n)\<close> (with the
  address of its scheduler), \<open>Client(address)\<close>, the call of a stage function with its
  options and its input, and \<open>client.close()\<close>. Printing is left out.
\<close>

datatype ('o, 'd) event =
    is_LocalCluster_created: LocalCluster_created nat string
  | is_Client_created: Client_created string
  | is_Stage_called: Stage_called "'o Stage" config 'd
  | is_Client_closed: Client_closed string

text \<open>
  The functions and constructors the flow calls and that lie outside the file, each with
  the exception it may raise: \<open>club_raw_files\<close> stands for the statements that build
  \<open>data\<close> from the dataset (globbing, parsing and clubbing the raw files),
  \<open>call_stage\<close> for \<open>function.with_options(**prefect_config_dict)\<close> followed by the call
  \<open>function(dataset, stage, data)\<close>.
\<close>

record ('o, 'ds, 'f, 'd) externals =
  club_raw_files :: "'ds \<Rightarrow> exn + 'd"
  dynamic_function_call :: "string \<Rightarrow> string \<Rightarrow> exn + 'f"
  get_prefect_config_dict :: "'o Stage \<Rightarrow> 'o Recipe \<Rightarrow> config option \<Rightarrow> exn + config option"
  LocalCluster_init :: "nat \<Rightarrow> exn + string"
  Client_init :: "string \<Rightarrow> exn + Client"
  call_stage :: "'f \<Rightarrow> config \<Rightarrow> 'ds \<Rightarrow> 'o Stage \<Rightarrow> 'd \<Rightarrow> exn + 'd"

text \<open>
  The decorators of \<open>init_flow\<close> are not part of the model. The record below holds the
  local variables of the flow and the events so far. \<open>v_output\<close> is \<open>None\<close> while the
  variable \<open>output\<close> is unbound. An exception leaves the function with the events that
  had happened when it was raised.
\<close>

record ('o, 'd) flow_state =
  v_client :: "Client option"
  v_prefect_config_dict :: "config option"
  v_data :: 'd
  v_output :: "'d option"
  v_events :: "('o, 'd) event list"

subsection \<open>Compute Backend Manager: the two branches on the recipe\<close>

text \<open>\<open>prefect_config_dict["task_runner"] = DaskTaskRunner(address=client.scheduler.address)\<close>\<close>

definition set_task_runner ::
  "('o, 'd) flow_state \<Rightarrow> Client \<Rightarrow> (exn \<times> ('o, 'd) event list) + ('o, 'd) flow_state" where
  "set_task_runner st c =
     (case v_prefect_config_dict st of
        None \<Rightarrow> Inl (TypeError, v_events st)
      | Some d \<Rightarrow>
          Inr (st\<lparr>v_prefect_config_dict :=
                    Some (setitem d ''task_runner'' (DaskTaskRunner (address c)))\<rparr>))"

definition remote_backend ::
  "('o, 'ds, 'f, 'd) externals \<Rightarrow> string \<Rightarrow> ('o, 'd) flow_state
     \<Rightarrow> (exn \<times> ('o, 'd) event list) + ('o, 'd) flow_state" where
  "remote_backend X addr st =
     (case v_client st of
        None \<Rightarrow>
          (case Client_init X addr of
             Inl e \<Rightarrow> Inl (e, v_events st)
           | Inr c \<Rightarrow>
               set_task_runner
                 (st\<lparr>v_client := Some c, v_events := v_events st @ [Client_created addr]\<rparr>) c)
      | Some c \<Rightarrow> set_task_runner st c)"

definition local_backend ::
  "('o, 'ds, 'f, 'd) externals \<Rightarrow> ('o, 'd) flow_state
     \<Rightarrow> (exn \<times> ('o, 'd) event list) + ('o, 'd) flow_state" where
  "local_backend X st =
     (case v_client st of
        None \<Rightarrow>
          (case LocalCluster_init X 3 of
             Inl e \<Rightarrow> Inl (e, v_events st)
           | Inr cluster_address \<Rightarrow>
               (case Client_init X cluster_address of
                  Inl e \<Rightarrow> Inl (e, v_events st @ [LocalCluster_created 3 cluster_address])
                | Inr c \<Rightarrow>
                    set_task_runner
                      (st\<lparr>v_client := Some c,
                          v_events := v_events st @
                            [LocalCluster_created 3 cluster_address,
                             Client_created cluster_address]\<rparr>) c))
      | Some c \<Rightarrow> set_task_runner st c)"

text \<open>
  The \<open>if\<close>/\<open>elif\<close> of the loop body: the first branch needs a scheduler address and
  \<open>use_local_dask == False\<close>; the second \<open>use_local_dask == True\<close>, a dictionary that is
  not \<open>None\<close> and no \<open>task_runner\<close> in it; otherwise nothing is done.
\<close>

definition configure_backend ::
  "('o, 'ds, 'f, 'd) externals \<Rightarrow> 'o Recipe \<Rightarrow> ('o, 'd) flow_state
     \<Rightarrow> (exn \<times> ('o, 'd) event list) + ('o, 'd) flow_state" where
  "configure_backend X recipe st =
     (let elif =
        (if use_local_dask recipe = True \<and> v_prefect_config_dict st \<noteq> None
            \<and> (case v_prefect_config_dict st of
                   Some d \<Rightarrow> dict_get d ''task_runner'' = CNone
                 | None \<Rightarrow> False)
         then local_backend X st
         else Inr st)
      in case scheduler_address recipe of
           Some addr \<Rightarrow>
             if use_local_dask recipe = False then remote_backend X addr st else elif
         | None \<Rightarrow> elif)"

subsection \<open>Orchestration Loop\<close>

definition stage_body ::
  "('o, 'ds, 'f, 'd) externals \<Rightarrow> 'o Recipe \<Rightarrow> 'ds \<Rightarrow> ('o, 'd) flow_state \<Rightarrow> 'o Stage
     \<Rightarrow> (exn \<times> ('o, 'd) event list) + ('o, 'd) flow_state" where
  "stage_body X recipe dataset st stage =
     (case dynamic_function_call X (module stage) (name stage) of
        Inl e \<Rightarrow> Inl (e, v_events st)
      | Inr function \<Rightarrow>
     (case get_prefect_config_dict X stage recipe (v_prefect_config_dict st) of
        Inl e \<Rightarrow> Inl (e, v_events st)
      | Inr prefect_config_dict \<Rightarrow>
     (case configure_backend X recipe (st\<lparr>v_prefect_config_dict := prefect_config_dict\<rparr>) of
        Inl err \<Rightarrow> Inl err
      | Inr st1 \<Rightarrow>
     (case v_prefect_config_dict st1 of
        None \<Rightarrow> Inl (TypeError, v_events st1)
      | Some d \<Rightarrow>
          (let events = v_events st1 @ [Stage_called stage d (v_data st1)]
           in case call_stage X function d dataset stage (v_data st1) of
                Inl e \<Rightarrow> Inl (e, events)
              | Inr output \<Rightarrow>
                  Inr (st1\<lparr>v_data := output, v_output := Some output, v_events := events\<rparr>))))))"

fun stage_loop ::
  "('o, 'ds, 'f, 'd) externals \<Rightarrow> 'o Recipe \<Rightarrow> 'ds \<Rightarrow> ('o, 'd) flow_state \<Rightarrow> 'o Stage list
     \<Rightarrow> (exn \<times> ('o, 'd) event list) + ('o, 'd) flow_state" where
  "stage_loop X recipe dataset st [] = Inr st"
| "stage_loop X recipe dataset st (stage # rest) =
     (case stage_body X recipe dataset st stage of
        Inl err \<Rightarrow> Inl err
      | Inr st1 \<Rightarrow> stage_loop X recipe dataset st1 rest)"

fun process_loop ::
  "('o, 'ds, 'f, 'd) externals \<Rightarrow> 'o Recipe \<Rightarrow> 'ds \<Rightarrow> ('o, 'd) flow_state \<Rightarrow> 'o Process list
     \<Rightarrow> (exn \<times> ('o, 'd) event list) + ('o, 'd) flow_state" where
  "process_loop X recipe dataset st [] = Inr st"
| "process_loop X recipe dataset st (process # rest) =
     (case stage_loop X recipe dataset st (stages process) of
        Inl err \<Rightarrow> Inl err
      | Inr st1 \<Rightarrow> process_loop X recipe dataset st1 rest)"

text \<open>\<open>return output\<close>: reading a variable that was never bound raises.\<close>

definition return_output :: "('o, 'd) flow_state \<Rightarrow> (exn + 'd) \<times> ('o, 'd) event list" where
  "return_output st =
     (case v_output st of
        None \<Rightarrow> (Inl UnboundLocalError, v_events st)
      | Some output \<Rightarrow> (Inr output, v_events st))"

text \<open>
  The statements after the loops: \<open>client.close()\<close> under the condition on the recipe
  (an \<open>AttributeError\<close> when \<open>client\<close> is still \<open>None\<close>), then \<open>return output\<close>.
\<close>

definition teardown ::
  "'o Recipe \<Rightarrow> ('o, 'd) flow_state \<Rightarrow> (exn + 'd) \<times> ('o, 'd) event list" where
  "teardown recipe st =
     (if scheduler_address recipe = None \<and> use_local_dask recipe = True then
        (case v_client st of
           None \<Rightarrow> (Inl AttributeError, v_events st)
         | Some c \<Rightarrow>
             return_output (st\<lparr>v_events := v_events st @ [Client_closed (address c)]\<rparr>))
      else return_output st)"

text \<open>The flow: its result, or the exception that left it, and the events of the run.\<close>

definition init_flow ::
  "('o, 'ds, 'f, 'd) externals \<Rightarrow> 'o Recipe \<Rightarrow> 'ds \<Rightarrow> (exn + 'd) \<times> ('o, 'd) event list" where
  "init_flow X recipe dataset =
     (case club_raw_files X dataset of
        Inl e \<Rightarrow> (Inl e, [])
      | Inr data0 \<Rightarrow>
          (case process_loop X recipe dataset
                  \<lparr>v_client = None, v_prefect_config_dict = Some [], v_data = data0,
                   v_output = None, v_events = []\<rparr>
                  (pipeline recipe) of
             Inl (e, events) \<Rightarrow> (Inl e, events)
           | Inr st \<Rightarrow> teardown recipe st))"

subsection \<open>Reading the events of a run\<close>

definition clusters_created :: "('o, 'd) event list \<Rightarrow> nat" where
  "clusters_created events = length (filter is_LocalCluster_created events)"

definition clients_created :: "('o, 'd) event list \<Rightarrow> nat" where
  "clients_created events = length (filter is_Client_created events)"

definition clients_closed :: "('o, 'd) event list \<Rightarrow> nat" where
  "clients_closed events = length (filter is_Client_closed events)"

text \<open>The stage calls of a run, in order: the stage, its options and its input.\<close>

fun stage_calls :: "('o, 'd) event list \<Rightarrow> ('o Stage \<times> config \<times> 'd) list" where
  "stage_calls [] = []"
| "stage_calls (Stage_called stage d x # events) = (stage, d, x) # stage_calls events"
| "stage_calls (_ # events) = stage_calls events"

text \<open>
  Replaying a list of calls from a given input: every call must have received the value
  the call before it returned (the first one the given input); the result is the value
  the last call returned.
\<close>

fun replay ::
  "('o, 'ds, 'f, 'd) externals \<Rightarrow> 'ds \<Rightarrow> 'd \<Rightarrow> ('o Stage \<times> config \<times> 'd) list \<Rightarrow> 'd option" where
  "replay X dataset x [] = Some x"
| "replay X dataset x ((stage, d, x') # calls) =
     (if x' = x then
        (case dynamic_function_call X (module stage) (name stage) of
           Inl e \<Rightarrow> None
         | Inr function \<Rightarrow>
             (case call_stage X function d dataset stage x of
                Inl e \<Rightarrow> None
              | Inr output \<Rightarrow> replay X dataset output calls))
      else None)"

text \<open>
  The recipe selects the remote branch when it has a scheduler address and does not ask
  for a local cluster. What holds of the client and the events between two stages: no
  client has been closed; without a client nothing has been created; with a client,
  one client has been created, together with one local cluster unless the recipe selects
  the remote branch.
\<close>

definition remote_mode :: "'o Recipe \<Rightarrow> bool" where
  "remote_mode recipe = (scheduler_address recipe \<noteq> None \<and> use_local_dask recipe = False)"

definition backend_invariant :: "'o Recipe \<Rightarrow> ('o, 'd) flow_state \<Rightarrow> bool" where
  "backend_invariant recipe st =
     (clients_closed (v_events st) = 0
      \<and> (if v_client st = None
         then clusters_created (v_events st) = 0 \<and> clients_created (v_events st) = 0
         else clients_created (v_events st) = 1
              \<and> clusters_created (v_events st) = (if remote_mode recipe then 0 else 1)))"

definition events_bounded :: "('o, 'd) event list \<Rightarrow> bool" where
  "events_bounded events =
     (clients_closed events = 0 \<and> clusters_created events \<le> 1 \<and> clients_created events \<le> 1)"

text \<open>No call to the outside raises, and \<open>get_prefect_config_dict\<close> returns a dictionary.\<close>

definition externals_succeed :: "('o, 'ds, 'f, 'd) externals \<Rightarrow> bool" where
  "externals_succeed X =
     ((\<forall>m n. \<exists>f. dynamic_function_call X m n = Inr f)
      \<and> (\<forall>stage recipe d. \<exists>d'. get_prefect_config_dict X stage recipe d = Inr (Some d'))
      \<and> (\<forall>n. \<exists>a. LocalCluster_init X n = Inr a)
      \<and> (\<forall>a. \<exists>c. Client_init X a = Inr c)
      \<and> (\<forall>f d dataset stage x. \<exists>y. call_stage X f d dataset stage x = Inr y))"

subsection \<open>Example runs\<close>

text \<open>
  Externals that never raise: a stage function is its name, calling it prepends the name
  to the data, and \<open>get_prefect_config_dict\<close> hands back the dictionary it was given.
\<close>

definition example_externals :: "(unit, unit, string, string list) externals" where
  "example_externals =
     \<lparr>club_raw_files = (\<lambda>dataset. Inr [''raw'']),
      dynamic_function_call = (\<lambda>m n. Inr n),
      get_prefect_config_dict = (\<lambda>stage recipe d. Inr d),
      LocalCluster_init = (\<lambda>n. Inr ''tcp://127.0.0.1:8786''),
      Client_init = (\<lambda>a. Inr (Client a)),
      call_stage = (\<lambda>f d dataset stage x. Inr (f # x))\<rparr>"

text \<open>The same, but every stage comes with a task runner of its own.\<close>

definition example_externals_own_runner :: "(unit, unit, string, string list) externals" where
  "example_externals_own_runner =
     example_externals
       \<lparr>get_prefect_config_dict :=
          (\<lambda>stage recipe d. Inr (Some [(''task_runner'', Setting ''SequentialTaskRunner'')]))\<rparr>"

definition example_stage :: "string \<Rightarrow> unit Stage" where
  "example_stage n = \<lparr>name = n, module = ''echoflow.stages_v2.subflows'', options = ()\<rparr>"

definition example_recipe :: "string option \<Rightarrow> bool \<Rightarrow> unit Recipe" where
  "example_recipe addr local =
     \<lparr>pipeline = [\<lparr>stages = [example_stage ''open_raw'', example_stage ''combine'']\<rparr>,
                  \<lparr>stages = [example_stage ''compute_Sv'']\<rparr>],
      scheduler_address = addr, use_local_dask = local\<rparr>"

section \<open>Properties of the Result Aggregator\<close>

subsection \<open>Order of first appearance\<close>

lemma set_first_seen: "set (first_seen xs) = set xs"
  by (induction xs) auto

lemma distinct_first_seen: "distinct (first_seen xs)"
  by (induction xs) (auto simp: set_first_seen)

lemma first_seen_snoc:
  "first_seen (xs @ [x]) = (if x \<in> set xs then first_seen xs else first_seen xs @ [x])"
  by (induction xs) (auto simp: set_first_seen)

lemma first_seen_distinct: "distinct xs \<Longrightarrow> first_seen xs = xs"
  by (induction xs) (auto simp: set_first_seen filter_id_conv)

lemma length_first_seen: "length (first_seen xs) = card (set xs)"
  by (metis distinct_card distinct_first_seen set_first_seen)

lemma map_of_tabulate:
  "map_of (map (\<lambda>t. (t, f t)) ts) k = (if k \<in> set ts then Some (f k) else None)"
  by (induction ts) auto

lemma setitem_tabulate:
  "distinct ts \<Longrightarrow>
   setitem (map (\<lambda>t. (t, f t)) ts) k v =
     (if k \<in> set ts then map (\<lambda>t. (t, if t = k then v else f t)) ts
      else map (\<lambda>t. (t, f t)) ts @ [(k, v)])"
  by (induction ts) auto

lemma transect_groups_snoc:
  "transect_groups (ys @ [e]) =
     (case map_of (transect_groups ys) (transect e) of
        Some members \<Rightarrow> setitem (transect_groups ys) (transect e) (members @ [e])
      | None \<Rightarrow> setitem (transect_groups ys) (transect e) [e])"
proof (cases "transect e \<in> transect ` set ys")
  case True
  then show ?thesis
    by (simp add: transect_groups_def map_of_tabulate setitem_tabulate distinct_first_seen
        first_seen_snoc set_first_seen)
next
  case False
  then have "filter (\<lambda>a. transect a = transect e) ys = []"
    by (auto simp: filter_empty_conv image_iff)
  moreover have "map (\<lambda>t. (t, if t = transect e then filter (\<lambda>a. transect a = t) ys @ [e]
                                else filter (\<lambda>a. transect a = t) ys))
                   (first_seen (map transect ys)) =
                 map (\<lambda>t. (t, filter (\<lambda>a. transect a = t) ys)) (first_seen (map transect ys))"
    using False by (intro map_cong) (auto simp: set_first_seen image_iff)
  ultimately show ?thesis
    using False
    by (auto simp: transect_groups_def map_of_tabulate setitem_tabulate distinct_first_seen
        first_seen_snoc set_first_seen image_iff)
qed

lemma group_transects_ok:
  "\<forall>e \<in> set ed_list. \<not> error e \<Longrightarrow>
   group_transects pname (transect_groups ys) ed_list = Inr (transect_groups (ys @ ed_list))"
proof (induction ed_list arbitrary: ys)
  case Nil
  then show ?case by simp
next
  case (Cons e ed_list)
  have "group_transects pname (transect_groups ys) (e # ed_list) =
        group_transects pname (transect_groups (ys @ [e])) ed_list"
    using Cons.prems by (simp add: transect_groups_snoc split: option.splits)
  also have "\<dots> = Inr (transect_groups ((ys @ [e]) @ ed_list))"
    using Cons.prems by (intro Cons.IH) simp
  finally show ?case by simp
qed

lemma collect_outputs_tabulate:
  "set ts \<subseteq> set ts0 \<Longrightarrow>
   collect_outputs (map (\<lambda>t. (t, f t)) ts0) ts acc = Inr (acc @ map (\<lambda>t. Output (f t)) ts)"
  by (induction ts arbitrary: acc) (auto simp: getitem_def map_of_tabulate)

lemma process_output_transects_ok:
  assumes "\<forall>e \<in> set ed_list. \<not> error e"
  shows "process_output_transects pname ed_list =
         Inr (map (\<lambda>t. Output (filter (\<lambda>e. transect e = t) ed_list))
                (first_seen (map transect ed_list)))"
proof -
  have "group_transects pname [] ed_list = Inr (transect_groups ed_list)"
    using group_transects_ok [OF assms, of pname "[]"] by (simp add: transect_groups_def)
  then show ?thesis
    by (simp add: process_output_transects_def keys_def transect_groups_def
        collect_outputs_tabulate comp_def)
qed

lemma group_transects_error:
  "\<exists>e \<in> set ed_list. error e \<Longrightarrow>
   group_transects pname d ed_list = Inl (ValueError (partial_failure_message pname))"
  by (induction ed_list arbitrary: d) (auto split: option.splits)


lemma first_seen_append:
  "first_seen (xs @ ys) = first_seen xs @ filter (\<lambda>y. y \<notin> set xs) (first_seen ys)"
proof (induction xs)
  case Nil
  then show ?case by simp
next
  case (Cons x xs)
  have "filter (\<lambda>y. y \<noteq> x) (filter (\<lambda>y. y \<notin> set xs) (first_seen ys)) =
        filter (\<lambda>y. y \<notin> set (x # xs)) (first_seen ys)"
    by (auto intro: filter_cong)
  with Cons show ?case by simp
qed

lemma first_seen_constant:
  "xs \<noteq> [] \<Longrightarrow> set xs \<subseteq> {a} \<Longrightarrow> first_seen xs = [a]"
proof (induction xs)
  case Nil
  then show ?case by simp
next
  case (Cons x xs)
  then have x: "x = a" by simp
  show ?case
  proof (cases "xs = []")
    case True
    with x show ?thesis by simp
  next
    case False
    with Cons x show ?thesis by simp
  qed
qed

lemma filter_concat_groups:
  "distinct ts \<Longrightarrow>
   filter (\<lambda>e. transect e = t) (concat (map (\<lambda>t'. filter (\<lambda>e. transect e = t') ed_list) ts)) =
     (if t \<in> set ts then filter (\<lambda>e. transect e = t) ed_list else [])"
proof (induction ts)
  case Nil
  then show ?case by simp
next
  case (Cons a ts)
  show ?case
  proof (cases "t = a")
    case True
    with Cons show ?thesis by simp
  next
    case False
    then have "filter (\<lambda>e. transect e = a \<and> transect e = t) ed_list = []"
      by (auto simp: filter_empty_conv)
    with Cons False show ?thesis by simp
  qed
qed

lemma first_seen_concat_groups:
  "distinct ts \<Longrightarrow> set ts \<subseteq> transect ` set ed_list \<Longrightarrow>
   first_seen (map transect (concat (map (\<lambda>t'. filter (\<lambda>e. transect e = t') ed_list) ts))) = ts"
proof (induction ts)
  case Nil
  then show ?case by simp
next
  case (Cons a ts)
  let ?G = "\<lambda>t'. filter (\<lambda>e. transect e = t') ed_list"
  have ne: "map transect (?G a) \<noteq> []"
    using Cons.prems by (auto simp: filter_empty_conv)
  have const: "set (map transect (?G a)) \<subseteq> {a}" by auto
  have head: "first_seen (map transect (?G a)) = [a]"
    by (rule first_seen_constant [OF ne const])
  have seta: "set (map transect (?G a)) = {a}"
    using ne const by (metis head list.simps(15) set_empty2 set_first_seen empty_set)
  have IH: "first_seen (map transect (concat (map ?G ts))) = ts"
    using Cons by simp
  have "first_seen (map transect (concat (map ?G (a # ts)))) =
        first_seen (map transect (?G a)) @
          filter (\<lambda>y. y \<notin> set (map transect (?G a))) (first_seen (map transect (concat (map ?G ts))))"
    by (simp add: first_seen_append del: set_map)
  also have "\<dots> = [a] @ filter (\<lambda>y. y \<notin> {a}) ts"
    by (simp only: head seta IH)
  also have "\<dots> = a # ts"
    using Cons.prems by (auto simp: filter_id_conv)
  finally show ?case .
qed

lemma regroup_same:
  assumes "\<forall>e \<in> set ed_list. \<not> error e"
  defines "outputs \<equiv> map (\<lambda>t. Output (filter (\<lambda>e. transect e = t) ed_list))
                         (first_seen (map transect ed_list))"
  shows "process_output_transects pname (concat (map data outputs)) = Inr outputs"
proof -
  let ?ts = "first_seen (map transect ed_list)"
  let ?G = "\<lambda>t'. filter (\<lambda>e. transect e = t') ed_list"
  have flat: "concat (map data outputs) = concat (map ?G ?ts)"
    by (simp add: outputs_def comp_def)
  have dist: "distinct ?ts" by (rule distinct_first_seen)
  have sub: "set ?ts \<subseteq> transect ` set ed_list" by (simp add: set_first_seen)
  have noerr: "\<forall>e \<in> set (concat (map ?G ?ts)). \<not> error e"
    using assms(1) by auto
  have ts': "first_seen (map transect (concat (map ?G ?ts))) = ?ts"
    by (rule first_seen_concat_groups [OF dist sub])
  have "process_output_transects pname (concat (map ?G ?ts)) =
        Inr (map (\<lambda>t. Output (filter (\<lambda>e. transect e = t) (concat (map ?G ?ts)))) ?ts)"
    using process_output_transects_ok [OF noerr, of pname] by (simp only: ts')
  also have "map (\<lambda>t. Output (filter (\<lambda>e. transect e = t) (concat (map ?G ?ts)))) ?ts =
             map (\<lambda>t. Output (?G t)) ?ts"
    by (intro map_cong refl) (simp add: filter_concat_groups [OF dist])
  finally show ?thesis unfolding flat by (simp add: outputs_def)
qed

lemma first_seen_remdups: "first_seen xs = rev (remdups (rev xs))"
  by (induction xs rule: rev_induct) (auto simp: first_seen_snoc)

subsection \<open>Claims about \<open>process_output_transects\<close>\<close>

text \<open>
  C2. If at least one record of the list has its error flag set, the call raises the
  \<open>ValueError\<close> whose message contains the process name (the specification's
  \<open>PartialFailure\<close>), whatever the other records are, and so returns no list of outputs.
\<close>

theorem process_output_transects_fails_on_any_error:
  assumes "\<exists>e \<in> set ed_list. error e"
  shows "process_output_transects pname ed_list = Inl (ValueError (partial_failure_message pname))
         \<and> (\<forall>outputs. process_output_transects pname ed_list \<noteq> Inr outputs)
         \<and> (\<exists>rest. partial_failure_message pname = ''Could not complete '' @ pname @ rest)"
proof -
  have "group_transects pname [] ed_list = Inl (ValueError (partial_failure_message pname))"
    using assms by (rule group_transects_error)
  then have "process_output_transects pname ed_list =
             Inl (ValueError (partial_failure_message pname))"
    by (simp add: process_output_transects_def)
  then show ?thesis by (simp add: partial_failure_message_def)
qed

theorem process_output_transects_fails_on_any_error_witness:
  "(\<exists>e \<in> set [\<lparr>transect = 1::nat, error = False\<rparr>, \<lparr>transect = 1, error = True\<rparr>]. error e)
   \<and> process_output_transects ''Convert''
         [\<lparr>transect = 1::nat, error = False\<rparr>, \<lparr>transect = 1, error = True\<rparr>]
       = Inl (ValueError (partial_failure_message ''Convert''))"
  using process_output_transects_fails_on_any_error
    [of "[\<lparr>transect = 1::nat, error = False\<rparr>, \<lparr>transect = 1, error = True\<rparr>]" "''Convert''"]
  by simp

text \<open>
  C6. When no record has its error flag set, the call returns one \<open>Output\<close> per distinct
  transect identifier: the identifiers are taken in order of first appearance in the input,
  and the \<open>data\<close> of each output is the sublist of the input records carrying that
  identifier, in input order.
\<close>

theorem process_output_transects_groups_by_transect:
  assumes "\<forall>e \<in> set ed_list. \<not> error e"
  shows "process_output_transects pname ed_list =
           Inr (map (\<lambda>t. Output (filter (\<lambda>e. transect e = t) ed_list))
                  (first_seen (map transect ed_list)))
         \<and> distinct (first_seen (map transect ed_list))
         \<and> set (first_seen (map transect ed_list)) = transect ` set ed_list
         \<and> length (first_seen (map transect ed_list)) = card (transect ` set ed_list)
         \<and> first_seen (map transect ed_list) = rev (remdups (rev (map transect ed_list)))"
  using process_output_transects_ok [OF assms, of pname]
  by (simp add: distinct_first_seen set_first_seen length_first_seen first_seen_remdups [symmetric])

theorem process_output_transects_groups_by_transect_witness:
  "\<not> (\<exists>e \<in> set [\<lparr>transect = 2::nat, error = False, \<dots> = ''a''\<rparr>,
                  \<lparr>transect = 1, error = False, \<dots> = ''b''\<rparr>,
                  \<lparr>transect = 2, error = False, \<dots> = ''c''\<rparr>]. error e)
   \<and> process_output_transects ''Convert''
         [\<lparr>transect = 2::nat, error = False, \<dots> = ''a''\<rparr>,
          \<lparr>transect = 1, error = False, \<dots> = ''b''\<rparr>,
          \<lparr>transect = 2, error = False, \<dots> = ''c''\<rparr>]
       = Inr [Output [\<lparr>transect = 2, error = False, \<dots> = ''a''\<rparr>,
                      \<lparr>transect = 2, error = False, \<dots> = ''c''\<rparr>],
              Output [\<lparr>transect = 1, error = False, \<dots> = ''b''\<rparr>]]"
  using process_output_transects_groups_by_transect
    [of "[\<lparr>transect = 2::nat, error = False, \<dots> = ''a''\<rparr>,
          \<lparr>transect = 1, error = False, \<dots> = ''b''\<rparr>,
          \<lparr>transect = 2, error = False, \<dots> = ''c''\<rparr>]" "''Convert''"]
  by simp

text \<open>
  C7. For an error-free list, concatenating the \<open>data\<close> of the outputs in order and
  aggregating that list again returns the same outputs: the same groups, in the same order,
  each with the same records in the same order.
\<close>

theorem process_output_transects_idempotent:
  assumes "\<forall>e \<in> set ed_list. \<not> error e"
  shows "\<exists>outputs. process_output_transects pname ed_list = Inr outputs
           \<and> process_output_transects pname (concat (map data outputs)) = Inr outputs"
  using process_output_transects_ok [OF assms, of pname] regroup_same [OF assms, of pname]
  by simp

theorem process_output_transects_idempotent_witness:
  "\<not> (\<exists>e \<in> set [\<lparr>transect = 2::nat, error = False, \<dots> = ''a''\<rparr>,
                  \<lparr>transect = 1, error = False, \<dots> = ''b''\<rparr>,
                  \<lparr>transect = 2, error = False, \<dots> = ''c''\<rparr>]. error e)
   \<and> (\<exists>outputs.
         process_output_transects ''Convert''
           [\<lparr>transect = 2::nat, error = False, \<dots> = ''a''\<rparr>,
            \<lparr>transect = 1, error = False, \<dots> = ''b''\<rparr>,
            \<lparr>transect = 2, error = False, \<dots> = ''c''\<rparr>] = Inr outputs
         \<and> process_output_transects ''Convert'' (concat (map data outputs)) = Inr outputs)"
  using process_output_transects_idempotent
    [of "[\<lparr>transect = 2::nat, error = False, \<dots> = ''a''\<rparr>,
          \<lparr>transect = 1, error = False, \<dots> = ''b''\<rparr>,
          \<lparr>transect = 2, error = False, \<dots> = ''c''\<rparr>]" "''Convert''"]
  by simp

section \<open>Properties of the Weekly Chunker\<close>

lemma map_of_setitem: "map_of (setitem d k v) = (map_of d)(k \<mapsto> v)"
  by (induction d) (auto simp: fun_eq_iff)

lemma slices_stop: "length xs \<le> i \<Longrightarrow> slices n i xs = []"
  by (subst slices.simps) simp

lemma slices_step:
  "0 < n \<Longrightarrow> i < length xs \<Longrightarrow> slices n i xs = take n (drop i xs) # slices n (i + n) xs"
  by (subst slices.simps) simp

lemma length_slices:
  "0 < n \<Longrightarrow> length (slices n i xs) = (length xs - i + (n - 1)) div n"
proof (induction n i xs rule: slices.induct)
  case (1 n i xs)
  show ?case
  proof (cases "length xs \<le> i")
    case True
    with "1.prems" show ?thesis by (simp add: slices_stop)
  next
    case False
    then have IH: "length (slices n (i + n) xs) = (length xs - (i + n) + (n - 1)) div n"
      using 1 by simp
    have "(length xs - i + (n - 1)) div n = Suc ((length xs - (i + n) + (n - 1)) div n)"
    proof (cases "length xs \<le> i + n")
      case True
      with False "1.prems" have "n \<le> length xs - i + (n - 1)" "length xs - i + (n - 1) < 2 * n"
        by auto
      then have "(length xs - i + (n - 1)) div n = 1"
        by (metis div_nat_eqI mult.commute mult_2 nat_mult_1_right plus_1_eq_Suc mult_Suc_right)
      with True "1.prems" show ?thesis by simp
    next
      case F2: False
      then have "length xs - i + (n - 1) = (length xs - (i + n) + (n - 1)) + n" by simp
      then have "(length xs - i + (n - 1)) div n = ((length xs - (i + n) + (n - 1)) + n) div n"
        by (rule arg_cong)
      also have "\<dots> = Suc ((length xs - (i + n) + (n - 1)) div n)"
        using "1.prems" by (simp only: div_add_self2)
      finally show ?thesis .
    qed
    with False "1.prems" IH show ?thesis by (simp add: slices_step)
  qed
qed

lemma nth_slices:
  "0 < n \<Longrightarrow> j < length (slices n i xs) \<Longrightarrow> slices n i xs ! j = take n (drop (i + j * n) xs)"
proof (induction n i xs arbitrary: j rule: slices.induct)
  case (1 n i xs)
  show ?case
  proof (cases "length xs \<le> i")
    case True
    with "1.prems" show ?thesis by (simp add: slices_stop)
  next
    case False
    then have step: "slices n i xs = take n (drop i xs) # slices n (i + n) xs"
      using "1.prems" by (simp add: slices_step)
    show ?thesis
    proof (cases j)
      case 0
      with step show ?thesis by simp
    next
      case (Suc j')
      with step "1.prems" have "j' < length (slices n (i + n) xs)" by simp
      with 1 False have "slices n (i + n) xs ! j' = take n (drop (i + n + j' * n) xs)" by simp
      with step Suc show ?thesis by (simp add: ac_simps)
    qed
  qed
qed

lemma concat_slices: "0 < n \<Longrightarrow> concat (slices n i xs) = drop i xs"
proof (induction n i xs rule: slices.induct)
  case (1 n i xs)
  show ?case
  proof (cases "length xs \<le> i")
    case True
    with "1.prems" show ?thesis by (simp add: slices_stop)
  next
    case False
    with 1 have "concat (slices n (i + n) xs) = drop (i + n) xs" by simp
    moreover have "take n (drop i xs) @ drop (i + n) xs = drop i xs"
      by (metis append_take_drop_id drop_drop add.commute)
    ultimately show ?thesis
      using False "1.prems" by (simp add: slices_step)
  qed
qed


lemma slices_map: "slices n i (map f xs) = map (map f) (slices n i xs)"
proof (induction n i xs rule: slices.induct)
  case (1 n i xs)
  show ?case
  proof (cases "n = 0 \<or> length xs \<le> i")
    case True
    then show ?thesis by (subst slices.simps, subst (2) slices.simps) auto
  next
    case False
    with 1 have "slices n (i + n) (map f xs) = map (map f) (slices n (i + n) xs)" by simp
    with False show ?thesis
      by (subst slices.simps, subst (2) slices.simps) (simp add: take_map drop_map)
  qed
qed

lemma those_map_Some: "those (map Some ns) = Some ns"
  by (induction ns) auto

lemma all_Some_map: "\<forall>v \<in> set vs. v \<noteq> None \<Longrightarrow> \<exists>ns. vs = map Some ns"
proof (induction vs)
  case Nil
  then show ?case by simp
next
  case (Cons v vs)
  then obtain ns n where "vs = map Some ns" "v = Some n" by auto
  then have "v # vs = map Some (n # ns)" by simp
  then show ?case by (rule exI)
qed

lemma days_vimage:
  "{d. \<exists>r \<in> set raw_dicts. jday r = Some d} = Some -` (jday ` set raw_dicts)"
  by (force simp: image_iff)

lemma set_distinct_days:
  "set (distinct_days raw_dicts) = {d. \<exists>r \<in> set raw_dicts. jday r = Some d}"
proof -
  have "finite (Some -` (jday ` set raw_dicts))"
    by (intro finite_vimageI) simp_all
  then show ?thesis by (simp add: distinct_days_def days_vimage)
qed

lemma sorted_set_ok:
  assumes "\<forall>r \<in> set raw_dicts. jday r \<noteq> None"
  shows "sorted_set (map jday raw_dicts) = Inr (map Some (distinct_days raw_dicts))"
proof -
  from assms have "\<forall>v \<in> set (map jday raw_dicts). v \<noteq> None" by simp
  then obtain ns where ns: "map jday raw_dicts = map Some ns"
    using all_Some_map by blast
  have "Some ` set ns = jday ` set raw_dicts"
    using ns by (metis list.set_map)
  then have "Some -` (jday ` set raw_dicts) = Some -` (Some ` set ns)"
    by (rule arg_cong [symmetric])
  then have "Some -` (jday ` set raw_dicts) = set ns"
    by (simp only: inj_vimage_image_eq [OF inj_Some])
  then show ?thesis
    by (simp add: sorted_set_def ns those_map_Some distinct_days_def days_vimage)
qed

lemma fill_day_dict_ok:
  "\<exists>d'. fill_day_dict d raw_dicts = Inr d' \<and>
     (\<forall>k. map_of d' k =
        (if k \<in> jday ` set raw_dicts
         then Some ((case map_of d k of Some fs \<Rightarrow> fs | None \<Rightarrow> []) @ filter (\<lambda>r. jday r = k) raw_dicts)
         else map_of d k))"
proof (induction raw_dicts arbitrary: d)
  case Nil
  then show ?case by simp
next
  case (Cons r raw_dicts)
  let ?mint = "jday r"
  let ?d1 = "if map_of d ?mint = None then setitem d ?mint [] else d"
  let ?files = "case map_of d ?mint of Some fs \<Rightarrow> fs | None \<Rightarrow> []"
  let ?d2 = "setitem ?d1 ?mint (?files @ [r])"
  have get: "getitem ?d1 ?mint = Inr ?files"
    by (auto simp: getitem_def map_of_setitem split: option.splits)
  have step: "fill_day_dict d (r # raw_dicts) = fill_day_dict ?d2 raw_dicts"
    using get by (simp add: Let_def)
  have m2: "map_of ?d2 = (map_of d)(?mint \<mapsto> ?files @ [r])"
    by (auto simp: map_of_setitem)
  from Cons.IH [of ?d2] obtain d' where d': "fill_day_dict ?d2 raw_dicts = Inr d'"
    and look: "\<And>k. map_of d' k =
        (if k \<in> jday ` set raw_dicts
         then Some ((case map_of ?d2 k of Some fs \<Rightarrow> fs | None \<Rightarrow> []) @ filter (\<lambda>r. jday r = k) raw_dicts)
         else map_of ?d2 k)"
    by blast
  have none: "k \<notin> jday ` set raw_dicts \<Longrightarrow> filter (\<lambda>r. jday r = k) raw_dicts = []" for k
    by (auto simp: filter_empty_conv)
  have "map_of d' k =
        (if k \<in> jday ` set (r # raw_dicts)
         then Some ((case map_of d k of Some fs \<Rightarrow> fs | None \<Rightarrow> []) @ filter (\<lambda>r. jday r = k) (r # raw_dicts))
         else map_of d k)" for k
    unfolding look [of k] m2 using none [of k] by (auto split: option.splits)
  then have "\<forall>k. map_of d' k =
        (if k \<in> jday ` set (r # raw_dicts)
         then Some ((case map_of d k of Some fs \<Rightarrow> fs | None \<Rightarrow> []) @ filter (\<lambda>r. jday r = k) (r # raw_dicts))
         else map_of d k)" by blast
  with d' show ?case unfolding step by (intro exI conjI)
qed

lemma week_files_ok:
  "\<forall>k \<in> set week. map_of day_dict k = Some (f k) \<Longrightarrow>
   week_files day_dict week = Inr (concat (map f week))"
  by (induction week) (auto simp: getitem_def)

lemma collect_weeks_ok:
  "\<forall>w \<in> set split_days. \<forall>k \<in> set w. map_of day_dict k = Some (f k) \<Longrightarrow>
   collect_weeks day_dict split_days acc = Inr (acc @ map (\<lambda>w. concat (map f w)) split_days)"
proof (induction split_days arbitrary: acc)
  case Nil
  then show ?case by simp
next
  case (Cons w split_days)
  then have "week_files day_dict w = Inr (concat (map f w))"
    by (intro week_files_ok) simp
  with Cons show ?case by simp
qed

lemma parse_raw_json_ok:
  assumes "\<forall>r \<in> set raw_dicts. jday r \<noteq> None"
  shows "parse_raw_json raw_dicts =
         Inr (map (\<lambda>w. concat (map (\<lambda>d. filter (\<lambda>r. jday r = Some d) raw_dicts) w))
                (slices 7 0 (distinct_days raw_dicts)))"
proof -
  let ?f = "\<lambda>k. filter (\<lambda>r. jday r = k) raw_dicts"
  let ?split_days = "slices 7 0 (map Some (distinct_days raw_dicts))"
  obtain day_dict where dd: "fill_day_dict [] raw_dicts = Inr day_dict"
    and look: "\<And>k. map_of day_dict k = (if k \<in> jday ` set raw_dicts then Some (?f k) else None)"
    using fill_day_dict_ok [of "[]" raw_dicts] by auto
  have cover: "\<forall>w \<in> set ?split_days. \<forall>k \<in> set w. map_of day_dict k = Some (?f k)"
  proof (intro ballI)
    fix w k assume "w \<in> set ?split_days" "k \<in> set w"
    then have "k \<in> set (concat ?split_days)" by auto
    then have "k \<in> Some ` set (distinct_days raw_dicts)"
      by (simp add: concat_slices)
    then obtain d r where "k = Some d" "r \<in> set raw_dicts" "jday r = Some d"
      by (auto simp: set_distinct_days)
    then have "k \<in> jday ` set raw_dicts"
      by (metis imageI)
    then show "map_of day_dict k = Some (?f k)" by (simp add: look)
  qed
  have "parse_raw_json raw_dicts = collect_weeks day_dict ?split_days []"
    by (simp add: parse_raw_json_def sorted_set_ok [OF assms] dd)
  also have "\<dots> = Inr (map (\<lambda>w. concat (map ?f w)) ?split_days)"
    using collect_weeks_ok [OF cover, of "[]"] by simp
  finally show ?thesis
    by (simp add: slices_map comp_def)
qed


lemma sorted_distinct_days: "sorted_wrt (<) (distinct_days raw_dicts)"
  by (simp add: distinct_days_def)

lemma length_distinct_days:
  "length (distinct_days raw_dicts) = card {d. \<exists>r \<in> set raw_dicts. jday r = Some d}"
  by (simp add: distinct_days_def)

lemma mset_concat_days:
  "distinct w \<Longrightarrow>
   mset (concat (map (\<lambda>d. filter (\<lambda>r. jday r = Some d) raw_dicts) w)) =
     filter_mset (\<lambda>r. \<exists>d \<in> set w. jday r = Some d) (mset raw_dicts)"
proof (induction w)
  case Nil
  then show ?case by simp
next
  case (Cons a w)
  then have IH: "mset (concat (map (\<lambda>d. filter (\<lambda>r. jday r = Some d) raw_dicts) w)) =
     filter_mset (\<lambda>r. \<exists>d \<in> set w. jday r = Some d) (mset raw_dicts)" by simp
  have "filter_mset (\<lambda>r. jday r = Some a) (mset raw_dicts) +
        filter_mset (\<lambda>r. \<exists>d \<in> set w. jday r = Some d) (mset raw_dicts) =
        filter_mset (\<lambda>r. \<exists>d \<in> set (a # w). jday r = Some d) (mset raw_dicts)"
    using Cons.prems by (auto simp: multiset_eq_iff)
  with IH show ?case by simp
qed

lemma concat_concat_map:
  "concat (map (\<lambda>w. concat (map g w)) ws) = concat (map g (concat ws))"
  by (induction ws) auto

lemma in_set_take_drop:
  "x \<in> set (take n (drop m xs)) \<Longrightarrow> \<exists>p < n. m + p < length xs \<and> x = xs ! (m + p)"
proof -
  assume "x \<in> set (take n (drop m xs))"
  then obtain p where p: "p < length (take n (drop m xs))" "take n (drop m xs) ! p = x"
    by (auto simp: in_set_conv_nth)
  then have "p < n" "m + p < length xs" by auto
  moreover from p this have "x = xs ! (m + p)" by simp
  ultimately show ?thesis by blast
qed

lemma in_week_day:
  "a \<in> set (concat (map (\<lambda>d. filter (\<lambda>r. jday r = Some d) raw_dicts) w)) \<Longrightarrow>
   \<exists>x \<in> set w. jday a = Some x"
  by auto

lemma weeks_ascending:
  assumes i: "i < j" and a: "a \<in> set (concat (map (\<lambda>d. filter (\<lambda>r. jday r = Some d) raw_dicts)
                                  (take 7 (drop (7 * i) (distinct_days raw_dicts)))))"
    and b: "b \<in> set (concat (map (\<lambda>d. filter (\<lambda>r. jday r = Some d) raw_dicts)
                                  (take 7 (drop (7 * j) (distinct_days raw_dicts)))))"
  shows "\<exists>x y. jday a = Some x \<and> jday b = Some y \<and> x < y"
proof -
  let ?days = "distinct_days raw_dicts"
  from in_week_day [OF a] obtain x where x: "x \<in> set (take 7 (drop (7 * i) ?days))" "jday a = Some x"
    by blast
  from in_week_day [OF b] obtain y where y: "y \<in> set (take 7 (drop (7 * j) ?days))" "jday b = Some y"
    by blast
  from in_set_take_drop [OF x(1)] obtain p where p: "p < 7" "7 * i + p < length ?days" "x = ?days ! (7 * i + p)"
    by blast
  from in_set_take_drop [OF y(1)] obtain q where q: "q < 7" "7 * j + q < length ?days" "y = ?days ! (7 * j + q)"
    by blast
  from i p(1) have "7 * i + p < 7 * j + q" by simp
  with q(2) have "?days ! (7 * i + p) < ?days ! (7 * j + q)"
    using sorted_distinct_days [of raw_dicts] by (simp add: sorted_wrt_iff_nth_less)
  with p(3) q(3) x(2) y(2) show ?thesis by simp
qed

lemma mset_all_days:
  assumes "\<forall>r \<in> set raw_dicts. jday r \<noteq> None"
  shows "filter_mset (\<lambda>r. \<exists>d \<in> set (distinct_days raw_dicts). jday r = Some d) (mset raw_dicts) =
         mset raw_dicts"
proof -
  have "\<exists>d \<in> set (distinct_days raw_dicts). jday r = Some d" if "r \<in># mset raw_dicts" for r
  proof -
    from that assms obtain d where "jday r = Some d" by auto
    with that show ?thesis by (auto simp: set_distinct_days)
  qed
  then show ?thesis by (simp add: filter_mset_eq_conv)
qed

text \<open>
  C1. For a collection in which every record bears a \<open>jday\<close>, the chunker returns
  \<open>ceil(distinctCount / 7)\<close> batches. Batch \<open>i\<close> belongs to the window made of the values
  \<open>7 i, \<dots>, 7 i + 6\<close> of the ascending list of distinct days (the last window may be
  shorter, none is empty): it is the concatenation, day by day, of the input records of
  that day, so it holds exactly the input records whose \<open>jday\<close> lies in the window. The
  batches together hold every input record exactly once, two different batches share no
  record, and every day of an earlier batch is smaller than every day of a later one.
\<close>

theorem parse_raw_json_weekly_batches:
  assumes "\<forall>r \<in> set raw_dicts. jday r \<noteq> None"
  shows "\<exists>weeks. parse_raw_json raw_dicts = Inr weeks
     \<and> length weeks = (card {d. \<exists>r \<in> set raw_dicts. jday r = Some d} + 6) div 7
     \<and> (\<forall>i < length weeks. take 7 (drop (7 * i) (distinct_days raw_dicts)) \<noteq> [])
     \<and> (\<forall>i < length weeks.
           weeks ! i = concat (map (\<lambda>d. filter (\<lambda>r. jday r = Some d) raw_dicts)
                                (take 7 (drop (7 * i) (distinct_days raw_dicts)))))
     \<and> (\<forall>i < length weeks.
           mset (weeks ! i) =
             filter_mset (\<lambda>r. \<exists>d \<in> set (take 7 (drop (7 * i) (distinct_days raw_dicts))). jday r = Some d)
               (mset raw_dicts))
     \<and> mset (concat weeks) = mset raw_dicts
     \<and> (\<forall>i j. i < j \<and> j < length weeks \<longrightarrow> set (weeks ! i) \<inter> set (weeks ! j) = {})
     \<and> (\<forall>i j. i < j \<and> j < length weeks \<longrightarrow>
           (\<forall>a \<in> set (weeks ! i). \<forall>b \<in> set (weeks ! j).
              \<exists>x y. jday a = Some x \<and> jday b = Some y \<and> x < y))"
proof -
  let ?days = "distinct_days raw_dicts"
  let ?G = "\<lambda>d. filter (\<lambda>r. jday r = Some d) raw_dicts"
  let ?weeks = "map (\<lambda>w. concat (map ?G w)) (slices 7 0 ?days)"
  have ret: "parse_raw_json raw_dicts = Inr ?weeks"
    by (rule parse_raw_json_ok [OF assms])
  have len: "length ?weeks = (card {d. \<exists>r \<in> set raw_dicts. jday r = Some d} + 6) div 7"
    by (simp add: length_slices length_distinct_days)
  have win: "slices 7 0 ?days ! i = take 7 (drop (7 * i) ?days)" if "i < length ?weeks" for i
    using that by (simp add: nth_slices mult.commute)
  have nth: "?weeks ! i = concat (map ?G (take 7 (drop (7 * i) ?days)))" if "i < length ?weeks" for i
    using that win [OF that] by simp
  have nonempty: "take 7 (drop (7 * i) ?days) \<noteq> []" if "i < length ?weeks" for i
  proof -
    from that have "i < (length ?days + 6) div 7" by (simp add: length_slices)
    then have "7 * i < length ?days" by simp
    then show ?thesis by simp
  qed
  have dist: "distinct (take 7 (drop (7 * i) ?days))" for i
    by (simp add: distinct_days_def)
  have ms: "mset (?weeks ! i) =
        filter_mset (\<lambda>r. \<exists>d \<in> set (take 7 (drop (7 * i) ?days)). jday r = Some d) (mset raw_dicts)"
    if "i < length ?weeks" for i
    unfolding nth [OF that] by (rule mset_concat_days [OF dist])
  have "concat ?weeks = concat (map ?G ?days)"
    by (simp add: concat_concat_map concat_slices)
  then have all: "mset (concat ?weeks) = mset raw_dicts"
    using mset_concat_days [of ?days raw_dicts] mset_all_days [OF assms]
    by (simp add: distinct_days_def)
  have asc: "\<exists>x y. jday a = Some x \<and> jday b = Some y \<and> x < y"
    if "i < j" "j < length ?weeks" "a \<in> set (?weeks ! i)" "b \<in> set (?weeks ! j)" for i j a b
  proof -
    from that have i: "i < length ?weeks" by simp
    show ?thesis
      using that(3,4) unfolding nth [OF i] nth [OF that(2)] by (rule weeks_ascending [OF that(1)])
  qed
  have disj: "set (?weeks ! i) \<inter> set (?weeks ! j) = {}" if "i < j" "j < length ?weeks" for i j
  proof (rule ccontr)
    assume "set (?weeks ! i) \<inter> set (?weeks ! j) \<noteq> {}"
    then obtain a where "a \<in> set (?weeks ! i)" "a \<in> set (?weeks ! j)" by blast
    from asc [OF that this] show False by auto
  qed
  show ?thesis
    apply (rule exI [of _ ?weeks])
    apply (intro conjI allI impI ballI)
    apply (rule ret)
    apply (rule len)
    apply (erule nonempty)
    apply (erule nth)
    apply (erule ms)
    apply (rule all)
    apply (erule conjE, erule (1) disj)
    apply (erule conjE, erule (3) asc)
    done
qed



theorem parse_raw_json_weekly_batches_witness:
  "\<not> (\<exists>r \<in> set [\<lparr>jday = Some 9\<rparr>, \<lparr>jday = Some 2\<rparr>, \<lparr>jday = Some 1\<rparr>, \<lparr>jday = Some 4\<rparr>,
      \<lparr>jday = Some 3\<rparr>, \<lparr>jday = Some 10\<rparr>, \<lparr>jday = Some 6\<rparr>, \<lparr>jday = Some 5\<rparr>,
      \<lparr>jday = Some 7\<rparr>, \<lparr>jday = Some 2\<rparr>]. jday r = None)
   \<and> (\<exists>weeks. parse_raw_json [\<lparr>jday = Some 9\<rparr>, \<lparr>jday = Some 2\<rparr>, \<lparr>jday = Some 1\<rparr>, \<lparr>jday = Some 4\<rparr>,
      \<lparr>jday = Some 3\<rparr>, \<lparr>jday = Some 10\<rparr>, \<lparr>jday = Some 6\<rparr>, \<lparr>jday = Some 5\<rparr>,
      \<lparr>jday = Some 7\<rparr>, \<lparr>jday = Some 2\<rparr>] = Inr weeks \<and> mset (concat weeks) = mset [\<lparr>jday = Some 9\<rparr>, \<lparr>jday = Some 2\<rparr>, \<lparr>jday = Some 1\<rparr>, \<lparr>jday = Some 4\<rparr>,
      \<lparr>jday = Some 3\<rparr>, \<lparr>jday = Some 10\<rparr>, \<lparr>jday = Some 6\<rparr>, \<lparr>jday = Some 5\<rparr>,
      \<lparr>jday = Some 7\<rparr>, \<lparr>jday = Some 2\<rparr>])"
proof -
  have h: "\<forall>r \<in> set [\<lparr>jday = Some 9\<rparr>, \<lparr>jday = Some 2\<rparr>, \<lparr>jday = Some 1\<rparr>, \<lparr>jday = Some 4\<rparr>,
      \<lparr>jday = Some 3\<rparr>, \<lparr>jday = Some 10\<rparr>, \<lparr>jday = Some 6\<rparr>, \<lparr>jday = Some 5\<rparr>,
      \<lparr>jday = Some 7\<rparr>, \<lparr>jday = Some 2\<rparr>]. jday r \<noteq> None"
    by simp
  from parse_raw_json_weekly_batches [OF h]
  obtain weeks where "parse_raw_json [\<lparr>jday = Some 9\<rparr>, \<lparr>jday = Some 2\<rparr>, \<lparr>jday = Some 1\<rparr>, \<lparr>jday = Some 4\<rparr>,
      \<lparr>jday = Some 3\<rparr>, \<lparr>jday = Some 10\<rparr>, \<lparr>jday = Some 6\<rparr>, \<lparr>jday = Some 5\<rparr>,
      \<lparr>jday = Some 7\<rparr>, \<lparr>jday = Some 2\<rparr>] = Inr weeks" "mset (concat weeks) = mset [\<lparr>jday = Some 9\<rparr>, \<lparr>jday = Some 2\<rparr>, \<lparr>jday = Some 1\<rparr>, \<lparr>jday = Some 4\<rparr>,
      \<lparr>jday = Some 3\<rparr>, \<lparr>jday = Some 10\<rparr>, \<lparr>jday = Some 6\<rparr>, \<lparr>jday = Some 5\<rparr>,
      \<lparr>jday = Some 7\<rparr>, \<lparr>jday = Some 2\<rparr>]"
    by (elim exE conjE)
  with h show ?thesis by (intro conjI exI [of _ weeks]) simp_all
qed

section \<open>Properties of the Temporal Classifier\<close>

lemma contains_groups:
  "contains (map (\<lambda>(k, g). (k, group_value g)) file_match) k = contains file_match k"
  by (simp add: contains_def map_of_map)

lemma map_of_setdefault:
  "map_of (setdefault d k v) = (if contains d k then map_of d else (map_of d)(k \<mapsto> v))"
  by (auto simp: setdefault_def contains_def fun_eq_iff map_add_def split: option.splits)

lemma keys_setdefault:
  "set (keys (setdefault d k v)) = insert k (set (keys d))"
  by (auto simp: setdefault_def contains_def keys_def map_of_eq_None_iff)

text \<open>
  C9. When the pattern does not match the identifier, \<open>search\<close> returns \<open>None\<close> and the
  call \<open>file_match.groupdict()\<close> raises \<open>AttributeError\<close>: this uncaught exception is the
  specification's \<open>PatternMismatch\<close>. The function has no handler, so the caller receives
  the exception and never a dictionary.
\<close>

theorem parse_file_path_no_match:
  assumes "re_search fname_pattern raw_file = Inr None"
  shows "parse_file_path re_search parser_parse raw_file fname_pattern = Inl AttributeError
         \<and> (\<forall>result. parse_file_path re_search parser_parse raw_file fname_pattern \<noteq> Inr result)"
  using assms by (simp add: parse_file_path_def)

theorem parse_file_path_no_match_witness:
  "(\<lambda>p s. Inr None) ''(?P<date>x)'' ''EK60.raw'' = (Inr None :: exn + (string, string option) dict option)
   \<and> parse_file_path (\<lambda>p s. Inr None) (\<lambda>s. Inl (ValueError ''ParserError'')) ''EK60.raw'' ''(?P<date>x)''
       = Inl AttributeError"
  using parse_file_path_no_match
    [of "\<lambda>p s. Inr None" "''(?P<date>x)''" "''EK60.raw''" "\<lambda>s. Inl (ValueError ''ParserError'')"]
  by simp

text \<open>
  C8. When the pattern matches and names a \<open>date\<close> group without a \<open>time\<close> group, or a
  \<open>time\<close> group without a \<open>date\<close> group, the date parser is not consulted and the result is
  the dictionary of the captured groups, completed by the entry \<open>datetime\<close> with the value
  \<open>None\<close> when no group has that name: the record carries no timestamp. Every other key
  is a captured group with its captured value; in particular \<open>jday\<close>, \<open>month\<close> and
  \<open>year\<close> are present only as captured groups, and no integer value is stored.
\<close>

theorem parse_file_path_without_timestamp:
  assumes "re_search fname_pattern raw_file = Inr (Some file_match)"
    and "(contains file_match ''date'' \<and> \<not> contains file_match ''time'')
         \<or> (contains file_match ''time'' \<and> \<not> contains file_match ''date'')"
  shows "\<exists>result. parse_file_path re_search parser_parse raw_file fname_pattern = Inr result
     \<and> result = setdefault (map (\<lambda>(k, g). (k, group_value g)) file_match) ''datetime'' PNone
     \<and> set (keys result) = insert ''datetime'' (set (keys file_match))
     \<and> (\<forall>k. k \<noteq> ''datetime'' \<longrightarrow> map_of result k = map_option group_value (map_of file_match k))
     \<and> map_of result ''jday'' = map_option group_value (map_of file_match ''jday'')
     \<and> map_of result ''month'' = map_option group_value (map_of file_match ''month'')
     \<and> map_of result ''year'' = map_option group_value (map_of file_match ''year'')
     \<and> map_of result ''datetime'' =
           (if contains file_match ''datetime''
            then map_option group_value (map_of file_match ''datetime'') else Some PNone)
     \<and> (\<forall>k n. (k, PInt n) \<notin> set result)"
proof -
  let ?match_dict = "map (\<lambda>(k, g). (k, group_value g)) file_match"
  let ?result = "setdefault ?match_dict ''datetime'' PNone"
  have ret: "parse_file_path re_search parser_parse raw_file fname_pattern = Inr ?result"
    using assms by (auto simp: parse_file_path_def contains_groups)
  have look: "map_of ?result k =
      (if k = ''datetime'' \<and> \<not> contains file_match ''datetime'' then Some PNone
       else map_option group_value (map_of file_match k))" for k
    by (simp add: map_of_setdefault contains_groups map_of_map)
  have keys: "set (keys ?result) = insert ''datetime'' (set (keys file_match))"
    by (simp add: keys_setdefault) (simp add: keys_def comp_def case_prod_unfold)
  have noint: "(k, PInt n) \<notin> set ?result" for k n
    by (auto simp: setdefault_def group_value_def split: option.splits)
  show ?thesis
    using ret keys noint by (simp add: look)
qed

theorem parse_file_path_without_timestamp_witness:
  "contains [(''date'', Some ''2017-01-15''), (''instrument'', Some ''EK60'')] ''date''
   \<and> \<not> contains [(''date'', Some ''2017-01-15''), (''instrument'', Some ''EK60'')] ''time''
   \<and> parse_file_path
         (\<lambda>p s. Inr (Some [(''date'', Some ''2017-01-15''), (''instrument'', Some ''EK60'')]))
         (\<lambda>s. Inl (ValueError ''ParserError'')) ''EK60_2017-01-15.raw'' ''pattern''
       = Inr [(''date'', PStr ''2017-01-15''), (''instrument'', PStr ''EK60''), (''datetime'', PNone)]"
  using parse_file_path_without_timestamp
    [of "\<lambda>p s. Inr (Some [(''date'', Some ''2017-01-15''), (''instrument'', Some ''EK60'')])"
        "''pattern''" "''EK60_2017-01-15.raw''"
        "[(''date'', Some ''2017-01-15''), (''instrument'', Some ''EK60'')]"
        "\<lambda>s. Inl (ValueError ''ParserError'')"]
  by (simp add: contains_def setdefault_def group_value_def)

section \<open>Properties of the flow\<close>

lemma count_simps [simp]:
  "clusters_created [] = 0" "clients_created [] = 0" "clients_closed [] = 0"
  "clusters_created (evs @ evs') = clusters_created evs + clusters_created evs'"
  "clients_created (evs @ evs') = clients_created evs + clients_created evs'"
  "clients_closed (evs @ evs') = clients_closed evs + clients_closed evs'"
  "clusters_created (e # evs) = (if is_LocalCluster_created e then 1 else 0) + clusters_created evs"
  "clients_created (e # evs) = (if is_Client_created e then 1 else 0) + clients_created evs"
  "clients_closed (e # evs) = (if is_Client_closed e then 1 else 0) + clients_closed evs"
  by (simp_all add: clusters_created_def clients_created_def clients_closed_def)

lemma set_task_runner_Inr:
  "set_task_runner st c = Inr st' \<Longrightarrow>
   v_client st' = v_client st \<and> v_events st' = v_events st \<and> v_data st' = v_data st
   \<and> v_output st' = v_output st \<and> v_prefect_config_dict st' \<noteq> None"
  by (auto simp: set_task_runner_def split: option.splits)

lemma set_task_runner_Inl:
  "set_task_runner st c = Inl (e, evs) \<Longrightarrow> evs = v_events st"
  by (auto simp: set_task_runner_def split: option.splits)

lemma remote_backend_Inr:
  assumes "remote_backend X addr st = Inr st'" "backend_invariant recipe st" "remote_mode recipe"
  shows "backend_invariant recipe st'"
  using assms
  by (auto simp: remote_backend_def backend_invariant_def
      split: option.splits sum.splits if_splits dest!: set_task_runner_Inr)

lemma remote_backend_Inl:
  assumes "remote_backend X addr st = Inl (e, evs)" "backend_invariant recipe st" "remote_mode recipe"
  shows "events_bounded evs"
  using assms
  by (auto simp: remote_backend_def backend_invariant_def events_bounded_def
      split: option.splits sum.splits if_splits dest!: set_task_runner_Inl)

lemma local_backend_Inr:
  assumes "local_backend X st = Inr st'" "backend_invariant recipe st" "\<not> remote_mode recipe"
  shows "backend_invariant recipe st'"
  using assms
  by (auto simp: local_backend_def backend_invariant_def
      split: option.splits sum.splits if_splits dest!: set_task_runner_Inr)

lemma local_backend_Inl:
  assumes "local_backend X st = Inl (e, evs)" "backend_invariant recipe st" "\<not> remote_mode recipe"
  shows "events_bounded evs"
  using assms
  by (auto simp: local_backend_def backend_invariant_def events_bounded_def
      split: option.splits sum.splits if_splits dest!: set_task_runner_Inl)

lemma invariant_bounded: "backend_invariant recipe st \<Longrightarrow> events_bounded (v_events st)"
  by (auto simp: backend_invariant_def events_bounded_def split: if_splits)

lemma configure_backend_Inr:
  assumes "configure_backend X recipe st = Inr st'" "backend_invariant recipe st"
  shows "backend_invariant recipe st'"
proof (cases "remote_mode recipe")
  case True
  with assms show ?thesis
    by (auto simp: configure_backend_def remote_mode_def Let_def
        split: option.splits if_splits intro: remote_backend_Inr [OF _ _ True])
next
  case False
  with assms show ?thesis
    by (auto simp: configure_backend_def remote_mode_def Let_def
        split: option.splits if_splits intro: local_backend_Inr [OF _ _ False])
qed

lemma configure_backend_Inl:
  assumes "configure_backend X recipe st = Inl (e, evs)" "backend_invariant recipe st"
  shows "events_bounded evs"
proof (cases "remote_mode recipe")
  case True
  with assms show ?thesis
    by (auto simp: configure_backend_def remote_mode_def Let_def
        split: option.splits if_splits intro: remote_backend_Inl [OF _ _ True])
next
  case False
  with assms show ?thesis
    by (auto simp: configure_backend_def remote_mode_def Let_def
        split: option.splits if_splits intro: local_backend_Inl [OF _ _ False])
qed


lemma stage_body_Inr:
  assumes "stage_body X recipe dataset st stage = Inr st'" "backend_invariant recipe st"
  shows "backend_invariant recipe st'"
proof -
  from assms(1) obtain cfg st1 d out where
    c: "configure_backend X recipe (st\<lparr>v_prefect_config_dict := cfg\<rparr>) = Inr st1"
    and st': "st' = st1\<lparr>v_data := out, v_output := Some out,
                        v_events := v_events st1 @ [Stage_called stage d (v_data st1)]\<rparr>"
    by (auto simp: stage_body_def Let_def split: sum.splits option.splits)
  have "backend_invariant recipe (st\<lparr>v_prefect_config_dict := cfg\<rparr>)"
    using assms(2) by (simp add: backend_invariant_def)
  from configure_backend_Inr [OF c this] show ?thesis
    by (simp add: st' backend_invariant_def)
qed

lemma stage_body_Inl:
  assumes "stage_body X recipe dataset st stage = Inl (e, evs)" "backend_invariant recipe st"
  shows "events_bounded evs"
proof -
  have inv: "backend_invariant recipe (st\<lparr>v_prefect_config_dict := cfg\<rparr>)" for cfg
    using assms(2) by (simp add: backend_invariant_def)
  have b0: "events_bounded (v_events st)"
    by (rule invariant_bounded [OF assms(2)])
  have b1: "events_bounded (v_events st1)"
    if "configure_backend X recipe (st\<lparr>v_prefect_config_dict := cfg\<rparr>) = Inr st1" for cfg st1
    using invariant_bounded [OF configure_backend_Inr [OF that inv]] .
  have b2: "events_bounded (v_events st1 @ [Stage_called stage d x])"
    if "configure_backend X recipe (st\<lparr>v_prefect_config_dict := cfg\<rparr>) = Inr st1" for cfg st1 d x
    using b1 [OF that] by (simp add: events_bounded_def)
  from assms(1) show ?thesis
    by (auto simp: stage_body_def Let_def b0 b1 b2 split: sum.splits option.splits
        dest: configure_backend_Inl [OF _ inv])
qed

lemma stage_loop_Inr:
  "stage_loop X recipe dataset st ss = Inr st' \<Longrightarrow> backend_invariant recipe st \<Longrightarrow>
   backend_invariant recipe st'"
  by (induction ss arbitrary: st) (auto split: sum.splits dest: stage_body_Inr)

lemma stage_loop_Inl:
  "stage_loop X recipe dataset st ss = Inl (e, evs) \<Longrightarrow> backend_invariant recipe st \<Longrightarrow>
   events_bounded evs"
  by (induction ss arbitrary: st) (auto split: sum.splits dest: stage_body_Inr stage_body_Inl)

lemma process_loop_Inr:
  "process_loop X recipe dataset st ps = Inr st' \<Longrightarrow> backend_invariant recipe st \<Longrightarrow>
   backend_invariant recipe st'"
  by (induction ps arbitrary: st) (auto split: sum.splits dest: stage_loop_Inr)

lemma process_loop_Inl:
  "process_loop X recipe dataset st ps = Inl (e, evs) \<Longrightarrow> backend_invariant recipe st \<Longrightarrow>
   events_bounded evs"
  by (induction ps arbitrary: st) (auto split: sum.splits dest: stage_loop_Inr stage_loop_Inl)

lemma initial_invariant:
  "backend_invariant recipe
     \<lparr>v_client = None, v_prefect_config_dict = Some [], v_data = x, v_output = None, v_events = []\<rparr>"
  by (simp add: backend_invariant_def)

lemma snd_return_output: "snd (return_output st) = v_events st"
  by (simp add: return_output_def split: option.splits)

lemma teardown_events:
  assumes "backend_invariant recipe st"
  shows "clusters_created (snd (teardown recipe st)) \<le> 1
         \<and> clients_created (snd (teardown recipe st)) \<le> 1
         \<and> clients_closed (snd (teardown recipe st)) \<le> clusters_created (snd (teardown recipe st))"
  using assms
  by (auto simp: teardown_def snd_return_output backend_invariant_def remote_mode_def
      split: option.splits if_splits)

text \<open>
  C3. In every run of the flow, whatever the recipe, the stages and the outcome of the
  calls it makes (also when the run ends with an exception), at most one local cluster is
  created, at most one client is constructed, which every later stage finds and keeps, and
  the number of clients closed does not exceed the number of local clusters created: a
  client is closed at most once, and only in a run that created its cluster.
\<close>

theorem init_flow_one_cluster_one_close:
  fixes X :: "('o, 'ds, 'f, 'd) externals"
  shows "clusters_created (snd (init_flow X recipe dataset)) \<le> 1
   \<and> clients_created (snd (init_flow X recipe dataset)) \<le> 1
   \<and> clients_closed (snd (init_flow X recipe dataset))
       \<le> clusters_created (snd (init_flow X recipe dataset))"
proof (cases "club_raw_files X dataset")
  case (Inl e)
  then show ?thesis by (simp add: init_flow_def)
next
  case (Inr data0)
  let ?st0 = "\<lparr>v_client = None, v_prefect_config_dict = Some [], v_data = data0,
               v_output = None, v_events = []\<rparr> :: ('o, 'd) flow_state"
  show ?thesis
  proof (cases "process_loop X recipe dataset ?st0 (pipeline recipe)")
    case (Inl err)
    obtain e evs where err: "err = (e, evs)" by (cases err)
    from process_loop_Inl [OF Inl [unfolded err] initial_invariant]
    have "events_bounded evs" .
    then show ?thesis
      using Inr Inl err by (simp add: init_flow_def events_bounded_def)
  next
    case st: (Inr st)
    from process_loop_Inr [OF st initial_invariant]
    have "backend_invariant recipe st" .
    from teardown_events [OF this] show ?thesis
      using Inr st by (simp add: init_flow_def)
  qed
qed


lemma stage_calls_append: "stage_calls (evs @ evs') = stage_calls evs @ stage_calls evs'"
  by (induction evs rule: stage_calls.induct) simp_all

lemma configure_backend_keeps:
  assumes "configure_backend X recipe st = Inr st'"
  shows "v_data st' = v_data st \<and> v_output st' = v_output st
         \<and> stage_calls (v_events st') = stage_calls (v_events st)"
  using assms
  by (auto simp: configure_backend_def remote_backend_def local_backend_def Let_def
      stage_calls_append
      split: option.splits sum.splits if_splits dest!: set_task_runner_Inr)

lemma stage_body_call:
  assumes "stage_body X recipe dataset st stage = Inr st'"
  shows "\<exists>d. stage_calls (v_events st') = stage_calls (v_events st) @ [(stage, d, v_data st)]
             \<and> replay X dataset (v_data st) [(stage, d, v_data st)] = Some (v_data st')
             \<and> v_output st' = Some (v_data st')"
proof -
  from assms obtain f cfg st1 d out where
    f: "dynamic_function_call X (module stage) (name stage) = Inr f"
    and c: "configure_backend X recipe (st\<lparr>v_prefect_config_dict := cfg\<rparr>) = Inr st1"
    and call: "call_stage X f d dataset stage (v_data st1) = Inr out"
    and st': "st' = st1\<lparr>v_data := out, v_output := Some out,
                        v_events := v_events st1 @ [Stage_called stage d (v_data st1)]\<rparr>"
    by (auto simp: stage_body_def Let_def split: sum.splits option.splits)
  from configure_backend_keeps [OF c]
  have keep: "v_data st1 = v_data st" "stage_calls (v_events st1) = stage_calls (v_events st)"
    by simp_all
  show ?thesis
    using f call by (intro exI [of _ d]) (simp add: st' keep stage_calls_append)
qed

lemma replay_Cons1:
  "replay X dataset x [c] = Some y \<Longrightarrow> replay X dataset x (c # cs) = replay X dataset y cs"
  by (cases c) (auto split: if_splits sum.splits)

lemma stage_loop_calls:
  "stage_loop X recipe dataset st ss = Inr st' \<Longrightarrow>
   \<exists>cs. stage_calls (v_events st') = stage_calls (v_events st) @ cs
        \<and> map fst cs = ss
        \<and> replay X dataset (v_data st) cs = Some (v_data st')
        \<and> v_output st' = (if ss = [] then v_output st else Some (v_data st'))"
proof (induction ss arbitrary: st)
  case Nil
  then show ?case by simp
next
  case (Cons stage rest)
  from Cons.prems obtain st1 where
    b: "stage_body X recipe dataset st stage = Inr st1"
    and l: "stage_loop X recipe dataset st1 rest = Inr st'"
    by (auto split: sum.splits)
  from stage_body_call [OF b] obtain d where
    c1: "stage_calls (v_events st1) = stage_calls (v_events st) @ [(stage, d, v_data st)]"
    and r1: "replay X dataset (v_data st) [(stage, d, v_data st)] = Some (v_data st1)"
    and o1: "v_output st1 = Some (v_data st1)"
    by blast
  from Cons.IH [OF l] obtain cs where
    c2: "stage_calls (v_events st') = stage_calls (v_events st1) @ cs"
    and m2: "map fst cs = rest"
    and r2: "replay X dataset (v_data st1) cs = Some (v_data st')"
    and o2: "v_output st' = (if rest = [] then v_output st1 else Some (v_data st'))"
    by blast
  have r: "replay X dataset (v_data st) ((stage, d, v_data st) # cs) = Some (v_data st')"
    using replay_Cons1 [OF r1, of cs] r2 by simp
  have o: "v_output st' = Some (v_data st')"
  proof (cases "rest = []")
    case True
    with l have "st' = st1" by simp
    with o1 show ?thesis by simp
  next
    case False
    with o2 show ?thesis by simp
  qed
  show ?case
    by (rule exI [of _ "(stage, d, v_data st) # cs"]) (simp add: c1 c2 m2 r o del: replay.simps)
qed

lemma replay_append:
  "replay X dataset x cs = Some y \<Longrightarrow> replay X dataset x (cs @ cs') = replay X dataset y cs'"
  by (induction cs arbitrary: x) (auto split: if_splits sum.splits)

lemma process_loop_calls:
  "process_loop X recipe dataset st ps = Inr st' \<Longrightarrow>
   \<exists>cs. stage_calls (v_events st') = stage_calls (v_events st) @ cs
        \<and> map fst cs = concat (map stages ps)
        \<and> replay X dataset (v_data st) cs = Some (v_data st')
        \<and> v_output st' = (if concat (map stages ps) = [] then v_output st else Some (v_data st'))"
proof (induction ps arbitrary: st)
  case Nil
  then show ?case by simp
next
  case (Cons p rest)
  from Cons.prems obtain st1 where
    b: "stage_loop X recipe dataset st (stages p) = Inr st1"
    and l: "process_loop X recipe dataset st1 rest = Inr st'"
    by (auto split: sum.splits)
  from stage_loop_calls [OF b] obtain cs1 where
    c1: "stage_calls (v_events st1) = stage_calls (v_events st) @ cs1"
    and m1: "map fst cs1 = stages p"
    and r1: "replay X dataset (v_data st) cs1 = Some (v_data st1)"
    and o1: "v_output st1 = (if stages p = [] then v_output st else Some (v_data st1))"
    by blast
  from Cons.IH [OF l] obtain cs2 where
    c2: "stage_calls (v_events st') = stage_calls (v_events st1) @ cs2"
    and m2: "map fst cs2 = concat (map stages rest)"
    and r2: "replay X dataset (v_data st1) cs2 = Some (v_data st')"
    and o2: "v_output st' = (if concat (map stages rest) = [] then v_output st1 else Some (v_data st'))"
    by blast
  have r: "replay X dataset (v_data st) (cs1 @ cs2) = Some (v_data st')"
    using replay_append [OF r1, of cs2] r2 by simp
  have same: "v_data st' = v_data st1" if "concat (map stages rest) = []"
  proof -
    from m2 have "map fst cs2 = []" by (simp only: that)
    then have "cs2 = []" by simp
    with r2 show ?thesis by simp
  qed
  have o: "v_output st' =
           (if concat (map stages (p # rest)) = [] then v_output st else Some (v_data st'))"
    using o1 o2 same by auto
  show ?case
    by (rule exI [of _ "cs1 @ cs2"]) (simp add: c1 c2 m1 m2 r o)
qed

text \<open>
  Whenever the flow returns a value, the stage calls of the run are the stages of the
  recipe in declared order (processes in order, stages in order within a process), each
  call received the value returned by the call before it (the first one the data built
  from the dataset), and the value returned is the one the last call returned.
\<close>

lemma init_flow_threads_stages:
  fixes X :: "('o, 'ds, 'f, 'd) externals"
  assumes "init_flow X recipe dataset = (Inr result, events)"
  shows "\<exists>data0. club_raw_files X dataset = Inr data0
           \<and> map fst (stage_calls events) = concat (map stages (pipeline recipe))
           \<and> replay X dataset data0 (stage_calls events) = Some result
           \<and> concat (map stages (pipeline recipe)) \<noteq> []"
proof -
  from assms obtain data0 where club: "club_raw_files X dataset = Inr data0"
    by (auto simp: init_flow_def split: sum.splits)
  let ?st0 = "\<lparr>v_client = None, v_prefect_config_dict = Some [], v_data = data0,
               v_output = None, v_events = []\<rparr> :: ('o, 'd) flow_state"
  from assms club obtain st where
    loop: "process_loop X recipe dataset ?st0 (pipeline recipe) = Inr st"
    and td: "teardown recipe st = (Inr result, events)"
    by (auto simp: init_flow_def split: sum.splits prod.splits)
  from process_loop_calls [OF loop] obtain cs where
    c: "stage_calls (v_events st) = cs"
    and m: "map fst cs = concat (map stages (pipeline recipe))"
    and r: "replay X dataset data0 cs = Some (v_data st)"
    and o: "v_output st = (if concat (map stages (pipeline recipe)) = [] then None else Some (v_data st))"
    by auto
  from td have out: "v_output st = Some result" and evs: "stage_calls events = stage_calls (v_events st)"
    by (auto simp: teardown_def return_output_def stage_calls_append split: if_splits option.splits)
  from out o have ne: "concat (map stages (pipeline recipe)) \<noteq> []" and res: "v_data st = result"
    by (auto split: if_splits)
  show ?thesis
    using club m r ne by (intro exI [of _ data0]) (simp add: evs c res)
qed

lemma process_loop_no_stages:
  "\<forall>p \<in> set ps. stages p = [] \<Longrightarrow> process_loop X recipe dataset st ps = Inr st"
  by (induction ps) auto

text \<open>
  C10. When the recipe has no process, or no process has a stage, the flow never returns a
  value, and in particular not the file collection it started from: once the data is
  built, the loops bind nothing and the flow ends with \<open>UnboundLocalError\<close> at
  \<open>return output\<close>, or, when the recipe asks for a local cluster and names no scheduler
  address, with \<open>AttributeError\<close> at \<open>client.close()\<close> just before.
\<close>

theorem init_flow_without_stages_fails:
  fixes X :: "('o, 'ds, 'f, 'd) externals"
  assumes "\<forall>p \<in> set (pipeline recipe). stages p = []"
  shows "(\<exists>e. fst (init_flow X recipe dataset) = Inl e)
         \<and> (\<forall>result. fst (init_flow X recipe dataset) \<noteq> Inr result)
         \<and> (\<forall>data0. club_raw_files X dataset = Inr data0 \<longrightarrow>
               init_flow X recipe dataset =
                 (Inl (if scheduler_address recipe = None \<and> use_local_dask recipe = True
                       then AttributeError else UnboundLocalError), []))"
proof (cases "club_raw_files X dataset")
  case (Inl e)
  then show ?thesis by (simp add: init_flow_def)
next
  case (Inr data0)
  then show ?thesis
    by (simp add: init_flow_def process_loop_no_stages [OF assms] teardown_def return_output_def)
qed


lemmas flow_eval =
  init_flow_def stage_body_def configure_backend_def local_backend_def remote_backend_def
  set_task_runner_def teardown_def return_output_def dict_get_def Let_def
  example_externals_def example_recipe_def example_stage_def

lemma example_local_run:
  "init_flow example_externals (example_recipe None True) () =
     (Inr [''compute_Sv'', ''combine'', ''open_raw'', ''raw''],
      [LocalCluster_created 3 ''tcp://127.0.0.1:8786'',
       Client_created ''tcp://127.0.0.1:8786'',
       Stage_called (example_stage ''open_raw'')
         [(''task_runner'', DaskTaskRunner ''tcp://127.0.0.1:8786'')] [''raw''],
       Stage_called (example_stage ''combine'')
         [(''task_runner'', DaskTaskRunner ''tcp://127.0.0.1:8786'')] [''open_raw'', ''raw''],
       Stage_called (example_stage ''compute_Sv'')
         [(''task_runner'', DaskTaskRunner ''tcp://127.0.0.1:8786'')]
         [''combine'', ''open_raw'', ''raw''],
       Client_closed ''tcp://127.0.0.1:8786''])"
  by (simp add: flow_eval)

theorem init_flow_one_cluster_one_close_witness:
  "clusters_created (snd (init_flow example_externals (example_recipe None True) ())) = 1
   \<and> clients_created (snd (init_flow example_externals (example_recipe None True) ())) = 1
   \<and> clients_closed (snd (init_flow example_externals (example_recipe None True) ())) = 1"
  using init_flow_one_cluster_one_close [of example_externals "example_recipe None True" "()"]
  by (simp add: example_local_run)

text \<open>
  C4. The run below completes and returns the value of its last stage. Its recipe asks for
  a local cluster and also names a scheduler address: the second branch of the loop body
  creates the local cluster, and the condition that guards \<open>client.close()\<close> is false, so
  the cluster the run created is still open when the flow returns.
\<close>

theorem init_flow_local_cluster_not_closed:
  "init_flow example_externals (example_recipe (Some ''tcp://scheduler:8786'') True) () =
     (Inr [''compute_Sv'', ''combine'', ''open_raw'', ''raw''],
      [LocalCluster_created 3 ''tcp://127.0.0.1:8786'',
       Client_created ''tcp://127.0.0.1:8786'',
       Stage_called (example_stage ''open_raw'')
         [(''task_runner'', DaskTaskRunner ''tcp://127.0.0.1:8786'')] [''raw''],
       Stage_called (example_stage ''combine'')
         [(''task_runner'', DaskTaskRunner ''tcp://127.0.0.1:8786'')] [''open_raw'', ''raw''],
       Stage_called (example_stage ''compute_Sv'')
         [(''task_runner'', DaskTaskRunner ''tcp://127.0.0.1:8786'')]
         [''combine'', ''open_raw'', ''raw'']])
   \<and> clusters_created
         (snd (init_flow example_externals (example_recipe (Some ''tcp://scheduler:8786'') True) ())) = 1
   \<and> clients_closed
         (snd (init_flow example_externals (example_recipe (Some ''tcp://scheduler:8786'') True) ())) = 0"
  by (simp add: flow_eval)

text \<open>
  C5. The run below calls its three stages in declared order, each with the value the one
  before returned. Every stage comes with a task runner of its own, so no client is ever
  created; the recipe asks for a local cluster and names no scheduler address, so the flow
  calls \<open>client.close()\<close> on \<open>None\<close> and ends with \<open>AttributeError\<close> in place of the value
  its last stage returned.
\<close>

theorem init_flow_teardown_without_client:
  "init_flow example_externals_own_runner (example_recipe None True) () =
     (Inl AttributeError,
      [Stage_called (example_stage ''open_raw'')
         [(''task_runner'', Setting ''SequentialTaskRunner'')] [''raw''],
       Stage_called (example_stage ''combine'')
         [(''task_runner'', Setting ''SequentialTaskRunner'')] [''open_raw'', ''raw''],
       Stage_called (example_stage ''compute_Sv'')
         [(''task_runner'', Setting ''SequentialTaskRunner'')]
         [''combine'', ''open_raw'', ''raw'']])"
  by (simp add: flow_eval example_externals_own_runner_def)

theorem init_flow_without_stages_fails_witness:
  "\<not> (\<exists>p \<in> set (pipeline \<lparr>pipeline = [\<lparr>stages = []\<rparr>], scheduler_address = None,
                                use_local_dask = False\<rparr>). stages p \<noteq> ([] :: unit Stage list))
   \<and> init_flow example_externals
         \<lparr>pipeline = [\<lparr>stages = []\<rparr>], scheduler_address = None, use_local_dask = False\<rparr> ()
       = (Inl UnboundLocalError, [])"
  using init_flow_without_stages_fails
    [of "\<lparr>pipeline = [\<lparr>stages = []\<rparr>], scheduler_address = None, use_local_dask = False\<rparr>"
        example_externals "()"]
  by (simp add: example_externals_def)

subsection \<open>Runs in which no call raises\<close>

lemma configure_backend_total:
  assumes "externals_succeed X" "v_prefect_config_dict st \<noteq> None"
  shows "\<exists>st'. configure_backend X recipe st = Inr st' \<and> v_prefect_config_dict st' \<noteq> None"
proof -
  from assms(1) have L: "\<And>n. \<exists>a. LocalCluster_init X n = Inr a"
    and C: "\<And>a. \<exists>c. Client_init X a = Inr c"
    by (auto simp: externals_succeed_def)
  from assms(2) obtain d where d: "v_prefect_config_dict st = Some d" by auto
  have remote: "\<exists>st'. remote_backend X addr st = Inr st' \<and> v_prefect_config_dict st' \<noteq> None" for addr
    using C [of addr] d
    by (auto simp: remote_backend_def set_task_runner_def split: option.splits)
  obtain a where a: "LocalCluster_init X 3 = Inr a" using L [of 3] by blast
  have local: "\<exists>st'. local_backend X st = Inr st' \<and> v_prefect_config_dict st' \<noteq> None"
    using C [of a] a d
    by (auto simp: local_backend_def set_task_runner_def split: option.splits)
  show ?thesis
    using remote local d
    by (auto simp: configure_backend_def Let_def split: option.splits)
qed

lemma stage_body_total:
  assumes "externals_succeed X"
  shows "\<exists>st'. stage_body X recipe dataset st stage = Inr st'"
proof -
  from assms obtain f d' where
    f: "dynamic_function_call X (module stage) (name stage) = Inr f"
    and g: "get_prefect_config_dict X stage recipe (v_prefect_config_dict st) = Inr (Some d')"
    unfolding externals_succeed_def by metis
  from configure_backend_total [OF assms, of "st\<lparr>v_prefect_config_dict := Some d'\<rparr>" recipe]
  obtain st1 d1 where
    c: "configure_backend X recipe (st\<lparr>v_prefect_config_dict := Some d'\<rparr>) = Inr st1"
    and d1: "v_prefect_config_dict st1 = Some d1"
    by auto
  from assms obtain y where "call_stage X f d1 dataset stage (v_data st1) = Inr y"
    unfolding externals_succeed_def by metis
  with f g c d1 show ?thesis
    by (simp add: stage_body_def Let_def)
qed

lemma stage_loop_total:
  "externals_succeed X \<Longrightarrow> \<exists>st'. stage_loop X recipe dataset st ss = Inr st'"
proof (induction ss arbitrary: st)
  case Nil
  then show ?case by simp
next
  case (Cons stage rest)
  from stage_body_total [OF Cons.prems, of recipe dataset st stage]
  obtain st1 where "stage_body X recipe dataset st stage = Inr st1" by blast
  with Cons.IH [OF Cons.prems, of st1] show ?case by simp
qed

lemma process_loop_total:
  "externals_succeed X \<Longrightarrow> \<exists>st'. process_loop X recipe dataset st ps = Inr st'"
proof (induction ps arbitrary: st)
  case Nil
  then show ?case by simp
next
  case (Cons p rest)
  from stage_loop_total [OF Cons.prems, of recipe dataset st "stages p"]
  obtain st1 where "stage_loop X recipe dataset st (stages p) = Inr st1" by blast
  with Cons.IH [OF Cons.prems, of st1] show ?case by simp
qed

text \<open>
  When no external call raises, the recipe has at least one stage and the condition that
  guards \<open>client.close()\<close> is false, the flow returns, and it returns the value of the
  last stage of the last process after calling the stages in declared order, each with
  the value returned by the one before.
\<close>

lemma init_flow_returns_last_output:
  fixes X :: "('o, 'ds, 'f, 'd) externals"
  assumes ok: "externals_succeed X"
    and club: "club_raw_files X dataset = Inr data0"
    and stages: "concat (map stages (pipeline recipe)) \<noteq> []"
    and noclose: "\<not> (scheduler_address recipe = None \<and> use_local_dask recipe = True)"
  shows "\<exists>result events. init_flow X recipe dataset = (Inr result, events)
           \<and> map fst (stage_calls events) = concat (map stages (pipeline recipe))
           \<and> replay X dataset data0 (stage_calls events) = Some result"
proof -
  let ?st0 = "\<lparr>v_client = None, v_prefect_config_dict = Some [], v_data = data0,
               v_output = None, v_events = []\<rparr> :: ('o, 'd) flow_state"
  from process_loop_total [OF ok, of recipe dataset ?st0 "pipeline recipe"]
  obtain st where loop: "process_loop X recipe dataset ?st0 (pipeline recipe) = Inr st" by blast
  from process_loop_calls [OF loop] stages have "v_output st = Some (v_data st)"
    by auto
  with club loop noclose have ret: "init_flow X recipe dataset = (Inr (v_data st), v_events st)"
    by (auto simp: init_flow_def teardown_def return_output_def)
  from init_flow_threads_stages [OF ret] club show ?thesis
    using ret by auto
qed

text \<open>With a scheduler address in the recipe no client is ever closed.\<close>

lemma init_flow_remote_never_closed:
  fixes X :: "('o, 'ds, 'f, 'd) externals"
  assumes "scheduler_address recipe \<noteq> None"
  shows "clients_closed (snd (init_flow X recipe dataset)) = 0"
proof (cases "club_raw_files X dataset")
  case (Inl e)
  then show ?thesis by (simp add: init_flow_def)
next
  case (Inr data0)
  let ?st0 = "\<lparr>v_client = None, v_prefect_config_dict = Some [], v_data = data0,
               v_output = None, v_events = []\<rparr> :: ('o, 'd) flow_state"
  show ?thesis
  proof (cases "process_loop X recipe dataset ?st0 (pipeline recipe)")
    case (Inl err)
    obtain e evs where err: "err = (e, evs)" by (cases err)
    from process_loop_Inl [OF Inl [unfolded err] initial_invariant]
    have "events_bounded evs" .
    then show ?thesis
      using Inr Inl err by (simp add: init_flow_def events_bounded_def)
  next
    case st: (Inr st)
    from process_loop_Inr [OF st initial_invariant]
    have "clients_closed (v_events st) = 0" by (simp add: backend_invariant_def)
    then show ?thesis
      using Inr st assms by (auto simp: init_flow_def teardown_def snd_return_output)
  qed
qed

end
